theory Spec2Isabelle
  imports Complex_Main
begin

section \<open>Randomized optimization drivers of \<open>algorithms.py\<close>\<close>

text \<open>
  The five drivers of \<open>algorithms.py\<close> are control loops around a Problem object
  (and, for annealing, a Schedule object).  Neither class is defined in
  \<open>algorithms.py\<close>, so the Problem is a parameter of the embedding: a record of
  its methods, each a function on the world \<open>'w\<close>.  The world is everything a
  call can read or change: the fields of the Problem object and the state of
  numpy's global random generator.  Accessors (\<open>get_\<close>..., \<open>eval_fitness\<close>) read
  the world, mutators return the new world, and a method that both returns a
  value and may change the world (a random draw, for instance) returns both.

  Fitness values are real numbers.  The hill climbers start their best fitness
  at \<open>-1*np.inf\<close> and multiply it by \<open>get_maximize()\<close>, so a returned fitness is
  a \<open>pyfloat\<close>: a real, an infinity, or the not-a-number that \<open>0*inf\<close> yields.
  Counters (\<open>restarts\<close>, \<open>max_attempts\<close>, \<open>pop_size\<close>, \<open>attempts\<close>, \<open>_t\<close>) are
  natural numbers: \<open>range(n)\<close> and \<open>attempts < n\<close> treat a negative \<open>n\<close> as they
  treat \<open>0\<close>.
\<close>

subsection \<open>Values\<close>

datatype pyfloat = NegInf | Fin real | PosInf | NaN

text \<open>\<open>m * x\<close> for a finite \<open>m\<close>, as IEEE arithmetic gives it on infinities.\<close>

fun scale :: "real \<Rightarrow> pyfloat \<Rightarrow> pyfloat" where
  "scale m (Fin x) = Fin (m * x)"
| "scale m NegInf = (if 0 < m then NegInf else if m < 0 then PosInf else NaN)"
| "scale m PosInf = (if 0 < m then PosInf else if m < 0 then NegInf else NaN)"
| "scale m NaN = NaN"

text \<open>\<open>x > b\<close> for a finite \<open>x\<close>; every comparison with not-a-number is false.\<close>

fun exceeds :: "real \<Rightarrow> pyfloat \<Rightarrow> bool" where
  "exceeds x NegInf = True"
| "exceeds x (Fin y) = (y < x)"
| "exceeds x PosInf = False"
| "exceeds x NaN = False"

datatype error = ZeroDivisionError | ValueError | IndexError

text \<open>\<open>a / b\<close> on Python floats raises on a zero divisor.\<close>

definition py_div :: "real \<Rightarrow> real \<Rightarrow> error + real" where
  "py_div a b = (if b = 0 then Inl ZeroDivisionError else Inr (a / b))"

text \<open>\<open>xs[i]\<close> for an index that \<open>np.random.choice\<close> returned (never negative).\<close>

definition index :: "'a list \<Rightarrow> nat \<Rightarrow> error + 'a" where
  "index xs i = (if i < length xs then Inr (xs ! i) else Inl IndexError)"

subsection \<open>The Problem and its environment\<close>

record ('w, 's) problem =
  reset :: "'w \<Rightarrow> 'w"
  find_neighbors :: "'w \<Rightarrow> 'w"
  best_neighbor :: "'w \<Rightarrow> 's \<times> 'w"
  random_neighbor :: "'w \<Rightarrow> 's \<times> 'w"
  eval_fitness :: "'s \<Rightarrow> 'w \<Rightarrow> real"
  get_fitness :: "'w \<Rightarrow> real"
  get_state :: "'w \<Rightarrow> 's"
  set_state :: "'s \<Rightarrow> 'w \<Rightarrow> 'w"
  get_maximize :: "'w \<Rightarrow> real"
  random_pop :: "nat \<Rightarrow> 'w \<Rightarrow> 'w"
  eval_mate_probs :: "'w \<Rightarrow> 'w"
  get_mate_probs :: "'w \<Rightarrow> real list"
  reproduce :: "'s \<Rightarrow> 's \<Rightarrow> real \<Rightarrow> 'w \<Rightarrow> 's \<times> 'w"
  get_population :: "'w \<Rightarrow> 's list"
  set_population :: "'s list \<Rightarrow> 'w \<Rightarrow> 'w"
  best_child :: "'w \<Rightarrow> 's \<times> 'w"
  find_top_pct :: "real \<Rightarrow> 'w \<Rightarrow> 'w"
  eval_node_probs :: "'w \<Rightarrow> 'w"
  sample_pop :: "nat \<Rightarrow> 'w \<Rightarrow> 's list \<times> 'w"
  uniform :: "'w \<Rightarrow> real \<times> 'w"
  choice :: "nat \<Rightarrow> real list \<Rightarrow> 'w \<Rightarrow> (nat \<times> nat) option \<times> 'w"
  np_exp :: "real \<Rightarrow> real"
  astype_int :: "'s \<Rightarrow> 's"

text \<open>
  \<open>uniform\<close> is \<open>np.random.uniform()\<close>; \<open>choice n p\<close> is
  \<open>np.random.choice(n, size=2, p=p)\<close>, \<open>None\<close> when numpy rejects \<open>p\<close> with a
  \<open>ValueError\<close>; \<open>astype_int\<close> is the array method \<open>astype(int)\<close>.
  \<open>np_exp\<close> is \<open>np.exp\<close> as numpy computes it on a float: it is not the
  exponential of the real numbers (it is exactly zero where that underflows),
  so it is a parameter like the rest of the environment.
\<close>

subsection \<open>Loops\<close>

text \<open>
  One iteration of a \<open>while\<close> loop either goes on with a new loop state or leaves
  the loop with a result (the guard fails, a \<open>break\<close>, an exception).  The loop
  itself may run forever: its value is then \<open>None\<close>.
\<close>

datatype ('s, 'r) outcome = Continue 's | Break 'r

partial_function (option) loop :: "('s \<Rightarrow> ('s, 'r) outcome) \<Rightarrow> 's \<Rightarrow> 'r option" where
  "loop step s = (case step s of Continue s' \<Rightarrow> loop step s' | Break r \<Rightarrow> Some r)"

text \<open>The loop state after \<open>n\<close> full iterations, if the loop gets that far.\<close>

fun run :: "('s \<Rightarrow> ('s, 'r) outcome) \<Rightarrow> nat \<Rightarrow> 's \<Rightarrow> 's option" where
  "run step 0 s = Some s"
| "run step (Suc n) s = (case step s of Continue s' \<Rightarrow> run step n s' | Break r \<Rightarrow> None)"

subsection \<open>\<open>hill_climb\<close>\<close>

text \<open>Lines 33-44: one pass of the \<open>while True\<close> loop.\<close>

definition hc_step :: "('w, 's) problem \<Rightarrow> 'w \<Rightarrow> ('w, 'w) outcome" where
  "hc_step P w =
     (let w1 = find_neighbors P w;
          (next_state, w2) = best_neighbor P w1;
          next_fitness = eval_fitness P next_state w2
      in if get_fitness P w2 < next_fitness
         then Continue (set_state P next_state w2)
         else Break w2)"

text \<open>Lines 31-44: one restart, from \<open>problem.reset()\<close> to the \<open>break\<close>.\<close>

definition hc_run :: "('w, 's) problem \<Rightarrow> 'w \<Rightarrow> 'w option" where
  "hc_run P w = loop (hc_step P) (reset P w)"

text \<open>
  The accumulator of the restart loop: the world, \<open>best_fitness\<close> and
  \<open>best_state\<close> (\<open>None\<close> is Python's \<open>None\<close>).
\<close>

type_synonym ('w, 's) best = "'w \<times> pyfloat \<times> 's option"

text \<open>Lines 46-49 (and 93-96): update best state and best fitness.\<close>

definition update_best :: "('w, 's) problem \<Rightarrow> 'w \<Rightarrow> pyfloat \<Rightarrow> 's option \<Rightarrow> ('w, 's) best" where
  "update_best P w best_fitness best_state =
     (if exceeds (get_fitness P w) best_fitness
      then (w, Fin (get_fitness P w), Some (get_state P w))
      else (w, best_fitness, best_state))"

text \<open>
  Lines 29-49 (and 74-96): \<open>for _ in range(restarts)\<close>.  The two hill climbers
  share the loop; \<open>climb\<close> is the restart itself.
\<close>

fun restarts_loop ::
  "('w, 's) problem \<Rightarrow> ('w \<Rightarrow> 'w option) \<Rightarrow> nat \<Rightarrow> ('w, 's) best \<Rightarrow> ('w, 's) best option" where
  "restarts_loop P climb 0 acc = Some acc"
| "restarts_loop P climb (Suc n) (w, best_fitness, best_state) =
     (case climb w of
        None \<Rightarrow> None
      | Some w' \<Rightarrow> restarts_loop P climb n (update_best P w' best_fitness best_state))"

text \<open>
  A driver returns \<open>(best_state, best_fitness)\<close>; the model adds the world the
  call leaves behind, since the Problem is mutated in place.
\<close>

type_synonym ('w, 's) result = "'s option \<times> pyfloat \<times> 'w"

text \<open>Lines 51-52 (and 98-99): the closing lines of the hill climbers.\<close>

definition orient :: "('w, 's) problem \<Rightarrow> ('w, 's) best \<Rightarrow> ('w, 's) result" where
  "orient P acc =
     (case acc of (w, best_fitness, best_state) \<Rightarrow>
        (best_state, scale (get_maximize P w) best_fitness, w))"

definition hill_climb :: "('w, 's) problem \<Rightarrow> nat \<Rightarrow> 'w \<Rightarrow> ('w, 's) result option" where
  "hill_climb P restarts w =
     map_option (orient P) (restarts_loop P (hc_run P) restarts (w, NegInf, None))"

subsection \<open>\<open>random_hill_climb\<close>\<close>

text \<open>The state of a loop guarded by \<open>attempts < max_attempts\<close>.\<close>

record 'w lstate =
  world :: 'w
  attempts :: nat

text \<open>Lines 79-91: the guard and one pass of the \<open>while\<close> loop.\<close>

definition rhc_step :: "('w, 's) problem \<Rightarrow> nat \<Rightarrow> 'w lstate \<Rightarrow> ('w lstate, 'w) outcome" where
  "rhc_step P max_attempts s =
     (if attempts s < max_attempts
      then (let (next_state, w1) = random_neighbor P (world s);
                next_fitness = eval_fitness P next_state w1
            in if get_fitness P w1 < next_fitness
               then Continue \<lparr>world = set_state P next_state w1, attempts = 0\<rparr>
               else Continue \<lparr>world = w1, attempts = attempts s + 1\<rparr>)
      else Break (world s))"

text \<open>Lines 76-91: one restart.\<close>

definition rhc_run :: "('w, 's) problem \<Rightarrow> nat \<Rightarrow> 'w \<Rightarrow> 'w option" where
  "rhc_run P max_attempts w =
     loop (rhc_step P max_attempts) \<lparr>world = reset P w, attempts = 0\<rparr>"

definition random_hill_climb ::
  "('w, 's) problem \<Rightarrow> nat \<Rightarrow> nat \<Rightarrow> 'w \<Rightarrow> ('w, 's) result option" where
  "random_hill_climb P max_attempts restarts w =
     map_option (orient P)
       (restarts_loop P (rhc_run P max_attempts) restarts (w, NegInf, None))"

subsection \<open>\<open>simulated_annealing\<close>\<close>

record 'w sa_state = "'w lstate" +
  clock :: nat

text \<open>
  Lines 135-140: draw a neighbour and compute \<open>delta_e\<close> and \<open>prob\<close>.  The result
  holds \<open>next_state\<close>, the world after the draw, \<open>delta_e\<close> and \<open>prob\<close>.
\<close>

definition sa_propose ::
  "('w, 's) problem \<Rightarrow> real \<Rightarrow> 'w \<Rightarrow> error + ('s \<times> 'w \<times> real \<times> real)" where
  "sa_propose P temp w =
     (let (next_state, w1) = random_neighbor P w;
          next_fitness = eval_fitness P next_state w1;
          delta_e = next_fitness - get_fitness P w1
      in case py_div delta_e temp of
           Inl e \<Rightarrow> Inl e
         | Inr q \<Rightarrow> Inr (next_state, w1, delta_e, np_exp P q))"

text \<open>
  Lines 145-153: accept or reject.  Python's \<open>or\<close> draws the uniform number only
  when \<open>delta_e > 0\<close> is false.
\<close>

definition sa_decide ::
  "('w, 's) problem \<Rightarrow> 'w sa_state \<Rightarrow> 's \<times> 'w \<times> real \<times> real \<Rightarrow> 'w sa_state" where
  "sa_decide P s c =
     (case c of (next_state, w1, delta_e, prob) \<Rightarrow>
        if 0 < delta_e
        then \<lparr>world = set_state P next_state w1, attempts = 0, clock = clock s + 1\<rparr>
        else (let (u, w2) = uniform P w1
              in if u < prob
                 then \<lparr>world = set_state P next_state w2, attempts = 0, clock = clock s + 1\<rparr>
                 else \<lparr>world = w2, attempts = attempts s + 1, clock = clock s + 1\<rparr>))"

text \<open>Lines 127-153: the guard and one pass of the \<open>while\<close> loop.\<close>

definition sa_step ::
  "('w, 's) problem \<Rightarrow> (nat \<Rightarrow> real) \<Rightarrow> nat \<Rightarrow> 'w sa_state \<Rightarrow> ('w sa_state, error + 'w) outcome" where
  "sa_step P schedule max_attempts s =
     (if attempts s < max_attempts
      then (let temp = schedule (clock s)
            in if temp = 0 then Break (Inr (world s))
               else (case sa_propose P temp (world s) of
                       Inl e \<Rightarrow> Break (Inl e)
                     | Inr c \<Rightarrow> Continue (sa_decide P s c)))
      else Break (Inr (world s)))"

text \<open>Lines 155-158 (and 217-220): the closing lines of the single-run drivers.\<close>

definition report :: "('w, 's) problem \<Rightarrow> 'w \<Rightarrow> ('w, 's) result" where
  "report P w = (Some (get_state P w), Fin (get_maximize P w * get_fitness P w), w)"

definition simulated_annealing ::
  "('w, 's) problem \<Rightarrow> (nat \<Rightarrow> real) \<Rightarrow> nat \<Rightarrow> 'w \<Rightarrow> (error + ('w, 's) result) option" where
  "simulated_annealing P schedule max_attempts w =
     (case loop (sa_step P schedule max_attempts)
             \<lparr>world = reset P w, attempts = 0, clock = 0\<rparr> of
        None \<Rightarrow> None
      | Some (Inl e) \<Rightarrow> Some (Inl e)
      | Some (Inr w') \<Rightarrow> Some (Inr (report P w')))"

subsection \<open>\<open>genetic_alg\<close>\<close>

text \<open>
  Lines 191-200: \<open>for _ in range(pop_size)\<close>, with the number of passes left as
  the recursion argument.
\<close>

fun ga_children ::
  "('w, 's) problem \<Rightarrow> nat \<Rightarrow> real \<Rightarrow> nat \<Rightarrow> 's list \<Rightarrow> 'w \<Rightarrow> error + ('s list \<times> 'w)" where
  "ga_children P pop_size mutation_prob 0 next_gen w = Inr (next_gen, w)"
| "ga_children P pop_size mutation_prob (Suc n) next_gen w =
     (case choice P pop_size (get_mate_probs P w) w of
        (None, w1) \<Rightarrow> Inl ValueError
      | (Some (i, j), w1) \<Rightarrow>
          (case index (get_population P w1) i of
             Inl e \<Rightarrow> Inl e
           | Inr parent_1 \<Rightarrow>
               (case index (get_population P w1) j of
                  Inl e \<Rightarrow> Inl e
                | Inr parent_2 \<Rightarrow>
                    (let (child, w2) = reproduce P parent_1 parent_2 mutation_prob w1
                     in ga_children P pop_size mutation_prob n (next_gen @ [child]) w2))))"

text \<open>Lines 205-215 (and 256-266): take the best child if it is an improvement.\<close>

definition select_child :: "('w, 's) problem \<Rightarrow> nat \<Rightarrow> 'w \<Rightarrow> 'w lstate" where
  "select_child P att w =
     (let (next_state, w1) = best_child P w;
          next_fitness = eval_fitness P next_state w1
      in if get_fitness P w1 < next_fitness
         then \<lparr>world = set_state P next_state w1, attempts = 0\<rparr>
         else \<lparr>world = w1, attempts = att + 1\<rparr>)"

text \<open>Lines 184-215: the guard and one generation.\<close>

definition ga_step ::
  "('w, 's) problem \<Rightarrow> nat \<Rightarrow> real \<Rightarrow> nat \<Rightarrow> 'w lstate \<Rightarrow> ('w lstate, error + 'w) outcome" where
  "ga_step P pop_size mutation_prob max_attempts s =
     (if attempts s < max_attempts
      then (let w1 = eval_mate_probs P (world s)
            in case ga_children P pop_size mutation_prob pop_size [] w1 of
                 Inl e \<Rightarrow> Break (Inl e)
               | Inr (next_gen, w2) \<Rightarrow>
                   Continue (select_child P (attempts s) (set_population P next_gen w2)))
      else Break (Inr (world s)))"

definition genetic_alg ::
  "('w, 's) problem \<Rightarrow> nat \<Rightarrow> real \<Rightarrow> nat \<Rightarrow> 'w \<Rightarrow> (error + ('w, 's) result) option" where
  "genetic_alg P pop_size mutation_prob max_attempts w =
     (case loop (ga_step P pop_size mutation_prob max_attempts)
             \<lparr>world = random_pop P pop_size (reset P w), attempts = 0\<rparr> of
        None \<Rightarrow> None
      | Some (Inl e) \<Rightarrow> Some (Inl e)
      | Some (Inr w') \<Rightarrow> Some (Inr (report P w')))"

subsection \<open>\<open>mimic\<close>\<close>

text \<open>Lines 245-266: the guard and one generation.\<close>

definition mimic_step ::
  "('w, 's) problem \<Rightarrow> nat \<Rightarrow> real \<Rightarrow> nat \<Rightarrow> 'w lstate \<Rightarrow> ('w lstate, 'w) outcome" where
  "mimic_step P pop_size keep_pct max_attempts s =
     (if attempts s < max_attempts
      then (let w1 = find_top_pct P keep_pct (world s);
                w2 = eval_node_probs P w1;
                (new_sample, w3) = sample_pop P pop_size w2
            in Continue (select_child P (attempts s) (set_population P new_sample w3)))
      else Break (world s))"

definition mimic ::
  "('w, 's) problem \<Rightarrow> nat \<Rightarrow> real \<Rightarrow> nat \<Rightarrow> 'w \<Rightarrow> ('w, 's) result option" where
  "mimic P pop_size keep_pct max_attempts w =
     (case loop (mimic_step P pop_size keep_pct max_attempts)
             \<lparr>world = random_pop P pop_size (reset P w), attempts = 0\<rparr> of
        None \<Rightarrow> None
      | Some w' \<Rightarrow>
          Some (Some (astype_int P (get_state P w')),
                Fin (get_maximize P w' * get_fitness P w'), w'))"

section \<open>What the properties speak about\<close>

subsection \<open>Runs\<close>

text \<open>The worlds the restarts of a hill climber end in, in order.\<close>

fun restart_finals :: "('w \<Rightarrow> 'w option) \<Rightarrow> nat \<Rightarrow> 'w \<Rightarrow> 'w list option" where
  "restart_finals climb 0 w = Some []"
| "restart_finals climb (Suc n) w =
     (case climb w of
        None \<Rightarrow> None
      | Some w' \<Rightarrow> map_option ((#) w') (restart_finals climb n w'))"

text \<open>\<open>-1 * x\<close> on a \<open>pyfloat\<close>, written out.\<close>

fun negated :: "pyfloat \<Rightarrow> pyfloat" where
  "negated (Fin x) = Fin (- x)"
| "negated NegInf = PosInf"
| "negated PosInf = NegInf"
| "negated NaN = NaN"

text \<open>
  Starting in the loop state \<open>s\<close>, the next \<open>j\<close> passes of the loop all take
  place and each of them rejects its candidate (it leaves \<open>attempts\<close> other
  than zero).
\<close>

fun rejections ::
  "(('w, 'm) lstate_scheme \<Rightarrow> (('w, 'm) lstate_scheme, 'r) outcome) \<Rightarrow> nat \<Rightarrow>
     ('w, 'm) lstate_scheme \<Rightarrow> bool" where
  "rejections step 0 s = True"
| "rejections step (Suc j) s =
     (case step s of
        Continue s' \<Rightarrow> attempts s' \<noteq> 0 \<and> rejections step j s'
      | Break r \<Rightarrow> False)"

subsection \<open>The contract of the Problem\<close>

text \<open>
  \<open>set_state\<close> commits a state and updates the cached fitness; looking for
  neighbours leaves the current fitness alone.
\<close>

definition fitness_contract :: "('w, 's) problem \<Rightarrow> bool" where
  "fitness_contract P \<longleftrightarrow>
     (\<forall>x w. get_fitness P (set_state P x w) = eval_fitness P x w) \<and>
     (\<forall>w. get_fitness P (snd (best_neighbor P (find_neighbors P w))) = get_fitness P w) \<and>
     (\<forall>w. get_fitness P (snd (random_neighbor P w)) = get_fitness P w)"

text \<open>
  \<open>best_neighbor\<close> returns a neighbour of the greatest fitness; \<open>nbrs w\<close> is
  the neighbour set that \<open>find_neighbors\<close> caches in the world \<open>w\<close>.
\<close>

definition best_neighbor_contract :: "('w, 's) problem \<Rightarrow> ('w \<Rightarrow> 's set) \<Rightarrow> bool" where
  "best_neighbor_contract P nbrs \<longleftrightarrow>
     (\<forall>w. case best_neighbor P (find_neighbors P w) of
            (b, w2) \<Rightarrow> b \<in> nbrs w \<and> (\<forall>x \<in> nbrs w. eval_fitness P x w2 \<le> eval_fitness P b w2))"

text \<open>
  \<open>set_population\<close> stores the population it is given, \<open>best_child\<close> and
  \<open>set_state\<close> leave it alone, and \<open>sample_pop n\<close> returns \<open>n\<close> states.
\<close>

definition population_contract :: "('w, 's) problem \<Rightarrow> bool" where
  "population_contract P \<longleftrightarrow>
     (\<forall>pop w. get_population P (set_population P pop w) = pop) \<and>
     (\<forall>w. get_population P (snd (best_child P w)) = get_population P w) \<and>
     (\<forall>x w. get_population P (set_state P x w) = get_population P w) \<and>
     (\<forall>n w. length (fst (sample_pop P n w)) = n)"

text \<open>
  \<open>np.exp\<close> of a float that is not positive lies between 0 and 1, both
  included: it is 1 at 0 and exactly 0 where the result underflows.
\<close>

definition exp_contract :: "('w, 's) problem \<Rightarrow> bool" where
  "exp_contract P \<longleftrightarrow> (\<forall>q. q \<le> 0 \<longrightarrow> 0 \<le> np_exp P q \<and> np_exp P q \<le> 1)"

text \<open>
  A loop makes progress for \<open>rank\<close> when an iteration that resets \<open>attempts\<close>
  (an accepted move) lowers the rank of the world and no other iteration
  raises it.
\<close>

definition progress ::
  "('w \<Rightarrow> nat) \<Rightarrow> (('w, 'm) lstate_scheme \<Rightarrow> (('w, 'm) lstate_scheme, 'r) outcome) \<Rightarrow> bool" where
  "progress rank step \<longleftrightarrow>
     (\<forall>s s'. step s = Continue s' \<longrightarrow>
        (if attempts s' = 0 then rank (world s') < rank (world s)
         else rank (world s') \<le> rank (world s)))"

text \<open>
  The inner loop of \<open>hill_climb\<close> descends for \<open>rank\<close> when every move lowers
  the rank of the world.
\<close>

definition descends :: "('w \<Rightarrow> nat) \<Rightarrow> ('w \<Rightarrow> ('w, 'r) outcome) \<Rightarrow> bool" where
  "descends rank step \<longleftrightarrow> (\<forall>w w'. step w = Continue w' \<longrightarrow> rank w' < rank w)"

subsection \<open>Example Problems\<close>

text \<open>
  An exponential that underflows: exactly zero from \<open>-746\<close> down, as
  \<open>np.exp\<close> is on a float, and the exponential of the real numbers above.
\<close>

definition float_exp :: "real \<Rightarrow> real" where
  "float_exp q = (if q \<le> - 746 then 0 else exp q)"

text \<open>
  A walk on the natural numbers: the state is a position, its only neighbour
  is the next position, and the fitness of a position is \<open>f\<close> of it.  The
  population is a list of positions; a child lies one beyond its greater
  parent.  \<open>m\<close> is the orientation that \<open>get_maximize\<close> returns.
\<close>

record walk =
  pos :: nat
  popn :: "nat list"

definition walk_problem :: "(nat \<Rightarrow> real) \<Rightarrow> real \<Rightarrow> (walk, nat) problem" where
  "walk_problem f m =
     \<lparr>reset = (\<lambda>w. w\<lparr>pos := 0\<rparr>),
      find_neighbors = (\<lambda>w. w),
      best_neighbor = (\<lambda>w. (pos w + 1, w)),
      random_neighbor = (\<lambda>w. (pos w + 1, w)),
      eval_fitness = (\<lambda>x w. f x),
      get_fitness = (\<lambda>w. f (pos w)),
      get_state = pos,
      set_state = (\<lambda>x w. w\<lparr>pos := x\<rparr>),
      get_maximize = (\<lambda>w. m),
      random_pop = (\<lambda>n w. w\<lparr>popn := replicate n 0\<rparr>),
      eval_mate_probs = (\<lambda>w. w),
      get_mate_probs = (\<lambda>w. map (\<lambda>x. 1 / real (length (popn w))) (popn w)),
      reproduce = (\<lambda>a b mutation_prob w. (max a b + 1, w)),
      get_population = popn,
      set_population = (\<lambda>pop w. w\<lparr>popn := pop\<rparr>),
      best_child = (\<lambda>w. (fold max (popn w) 0, w)),
      find_top_pct = (\<lambda>keep_pct w. w),
      eval_node_probs = (\<lambda>w. w),
      sample_pop = (\<lambda>n w. (replicate n (pos w + 1), w)),
      uniform = (\<lambda>w. (1 / 2, w)),
      choice = (\<lambda>n p w. (if n = 0 then None else Some (0, 0), w)),
      np_exp = float_exp,
      astype_int = (\<lambda>x. x)\<rparr>"

text \<open>Three landscapes: a climb that ends at 3, a climb without end, a plain.\<close>

definition capped :: "nat \<Rightarrow> real" where
  "capped x = real (min x 3)"

definition endless :: "nat \<Rightarrow> real" where
  "endless x = real x"

definition flat :: "nat \<Rightarrow> real" where
  "flat x = 0"

text \<open>
  Two more landscapes: every position is worse than the one before, by 5 and
  by 1000.
\<close>

definition steep :: "nat \<Rightarrow> real" where
  "steep x = - 5 * real x"

definition cliff :: "nat \<Rightarrow> real" where
  "cliff x = - 1000 * real x"

definition start :: walk where
  "start = \<lparr>pos = 0, popn = []\<rparr>"

text \<open>The neighbours of a position of the walk.\<close>

definition walk_nbrs :: "walk \<Rightarrow> nat set" where
  "walk_nbrs w = {pos w + 1}"

text \<open>A schedule that is 1 at the times 0 and 1 and 0 from then on.\<close>

definition two_ticks :: "nat \<Rightarrow> real" where
  "two_ticks t = (if t < 2 then 1 else 0)"

text \<open>
  Two hills, and a walk whose every restart begins two positions beyond the
  place where the world stands.
\<close>

definition hills :: "nat \<Rightarrow> real" where
  "hills x = (if x = 3 then 5 else if x = 6 then 2 else 0)"

definition hop_problem :: "real \<Rightarrow> (walk, nat) problem" where
  "hop_problem m = (walk_problem hills m)\<lparr>reset := (\<lambda>w. w\<lparr>pos := pos w + 2\<rparr>)\<rparr>"

section \<open>Loops: running, stopping, running forever\<close>

lemma loop_Continue: "step s = Continue s' \<Longrightarrow> loop step s = loop step s'"
  by (subst loop.simps) simp

lemma loop_Break: "step s = Break r \<Longrightarrow> loop step s = Some r"
  by (subst loop.simps) simp

lemma loop_run: "run step n s = Some s' \<Longrightarrow> loop step s = loop step s'"
proof (induction n arbitrary: s)
  case 0
  then show ?case by simp
next
  case (Suc n)
  then obtain s1 where s1: "step s = Continue s1" and r: "run step n s1 = Some s'"
    by (auto split: outcome.splits)
  from Suc.IH [OF r] loop_Continue [of step s s1] s1 show ?case by simp
qed

lemma loop_SomeD:
  fixes step :: "'s \<Rightarrow> ('s, 'r) outcome"
  assumes "loop step s = Some r"
  shows "\<exists>n s'. run step n s = Some s' \<and> step s' = Break r"
proof (rule loop.raw_induct
    [where P = "\<lambda>f a y. \<exists>n s'. run f n a = Some s' \<and> f s' = Break y", OF _ assms])
  fix lp :: "('s \<Rightarrow> ('s, 'r) outcome) \<Rightarrow> 's \<Rightarrow> 'r option" and f a y
  assume IH: "\<And>g b z. lp g b = Some z \<Longrightarrow> \<exists>n s'. run g n b = Some s' \<and> g s' = Break z"
    and eq: "(case f a of Continue s' \<Rightarrow> lp f s' | Break r \<Rightarrow> Some r) = Some y"
  show "\<exists>n s'. run f n a = Some s' \<and> f s' = Break y"
  proof (cases "f a")
    case (Continue s1)
    with eq have "lp f s1 = Some y" by simp
    from IH [OF this] obtain n s' where "run f n s1 = Some s'" "f s' = Break y" by blast
    with Continue have "run f (Suc n) a = Some s' \<and> f s' = Break y" by simp
    then show ?thesis by blast
  next
    case (Break r')
    with eq have "r' = y" by simp
    with Break have "run f 0 a = Some a \<and> f a = Break y" by simp
    then show ?thesis by blast
  qed
qed

lemma loop_Some_iff:
  "loop step s = Some r \<longleftrightarrow> (\<exists>n s'. run step n s = Some s' \<and> step s' = Break r)"
  using loop_SomeD loop_run loop_Break by (metis)

lemma run_invariant:
  assumes "run step n s = Some s'" and "I s"
    and "\<And>a b. I a \<Longrightarrow> step a = Continue b \<Longrightarrow> I b"
  shows "I s'"
  using assms(1,2)
proof (induction n arbitrary: s)
  case 0
  then show ?case by simp
next
  case (Suc n)
  then obtain s1 where s1: "step s = Continue s1" and r: "run step n s1 = Some s'"
    by (auto split: outcome.splits)
  from assms(3) [OF Suc.prems(2) s1] Suc.IH [OF r] show ?case by simp
qed

lemma loop_None:
  assumes "I s" and "\<And>a. I a \<Longrightarrow> \<exists>b. step a = Continue b \<and> I b"
  shows "loop step s = None"
proof (rule ccontr)
  assume "loop step s \<noteq> None"
  then obtain r where "loop step s = Some r" by auto
  then obtain n s' where r: "run step n s = Some s'" and b: "step s' = Break r"
    using loop_SomeD by metis
  have "I s'"
    using run_invariant [of step n s s' I] r assms by fastforce
  with assms(2) b show False by fastforce
qed

lemma loop_terminates:
  assumes "wf R" and "I s"
    and "\<And>a b. I a \<Longrightarrow> step a = Continue b \<Longrightarrow> I b \<and> (b, a) \<in> R"
  shows "\<exists>r. loop step s = Some r"
  using assms(1,2)
proof (induction s rule: wf_induct_rule)
  case (less s)
  show ?case
  proof (cases "step s")
    case (Continue s1)
    from assms(3) [OF less.prems Continue] less.IH [of s1] loop_Continue [of step s s1] Continue
    show ?thesis by simp
  next
    case (Break r)
    then show ?thesis using loop_Break [of step s r] by simp
  qed
qed

lemma run_Suc_last:
  "run step (Suc n) s = Some s' \<Longrightarrow> \<exists>a. run step n s = Some a \<and> step a = Continue s'"
proof (induction n arbitrary: s)
  case 0
  then show ?case by (auto split: outcome.splits)
next
  case (Suc n)
  then obtain a where a: "step s = Continue a" and r: "run step (Suc n) a = Some s'"
    by (auto split: outcome.splits)
  from Suc.IH [OF r] obtain b where "run step n a = Some b" "step b = Continue s'" by blast
  with a have "run step (Suc n) s = Some b \<and> step b = Continue s'" by simp
  then show ?case by blast
qed

section \<open>The example Problems, evaluated\<close>

lemma walk_hc_run: "hc_run (walk_problem capped m) start = Some \<lparr>pos = 3, popn = []\<rparr>"
  by (simp add: hc_run_def loop.simps hc_step_def walk_problem_def capped_def start_def)

lemma walk_rhc_run: "rhc_run (walk_problem capped m) 2 start = Some \<lparr>pos = 3, popn = []\<rparr>"
  by (simp add: rhc_run_def loop.simps rhc_step_def walk_problem_def capped_def start_def)

lemma walk_fields:
  "get_maximize (walk_problem f m) w = m"
  "get_fitness (walk_problem f m) w = f (pos w)"
  "get_state (walk_problem f m) w = pos w"
  "reset (walk_problem f m) w = w\<lparr>pos := 0\<rparr>"
  "astype_int (walk_problem f m) x = x"
  by (simp_all add: walk_problem_def)

lemma walk_hill_climb:
  "hill_climb (walk_problem capped m) 1 start = Some (Some 3, Fin (m * 3), \<lparr>pos = 3, popn = []\<rparr>)"
  by (simp add: hill_climb_def walk_hc_run update_best_def orient_def walk_fields capped_def)

lemma walk_random_hill_climb:
  "random_hill_climb (walk_problem capped m) 2 1 start
     = Some (Some 3, Fin (m * 3), \<lparr>pos = 3, popn = []\<rparr>)"
  by (simp add: random_hill_climb_def walk_rhc_run update_best_def orient_def walk_fields capped_def)

lemma walk_simulated_annealing:
  "simulated_annealing (walk_problem capped m) two_ticks 5 start
     = Some (Inr (Some 2, Fin (m * 2), \<lparr>pos = 2, popn = []\<rparr>))"
  by (simp add: simulated_annealing_def report_def loop.simps sa_step_def sa_propose_def float_exp_def
      sa_decide_def py_div_def two_ticks_def walk_problem_def capped_def start_def)

lemma walk_genetic_alg:
  "genetic_alg (walk_problem capped m) 1 mp 1 start
     = Some (Inr (Some 3, Fin (m * 3), \<lparr>pos = 3, popn = [4]\<rparr>))"
  by (simp add: genetic_alg_def report_def loop.simps ga_step_def select_child_def index_def
      walk_problem_def capped_def start_def)

lemma walk_mimic_result:
  "mimic (walk_problem capped m) 1 kp 1 start
     = Some (Some 3, Fin (m * 3), \<lparr>pos = 3, popn = [4]\<rparr>)"
  by (simp add: mimic_def loop.simps mimic_step_def select_child_def
      walk_problem_def capped_def start_def)

lemma walk_np_exp: "np_exp (walk_problem f m) q = float_exp q"
  by (simp add: walk_problem_def)

lemma walk_exp_contract: "exp_contract (walk_problem f m)"
  by (simp add: exp_contract_def walk_problem_def float_exp_def)

lemma walk_fitness_contract: "fitness_contract (walk_problem f m)"
  by (simp add: fitness_contract_def walk_problem_def)

lemma walk_best_neighbor_contract: "best_neighbor_contract (walk_problem f m) walk_nbrs"
  by (simp add: best_neighbor_contract_def walk_problem_def walk_nbrs_def)

lemma walk_population_contract: "population_contract (walk_problem f m)"
  by (simp add: population_contract_def walk_problem_def)

lemma hop_fields:
  "get_maximize (hop_problem m) w = m"
  "get_fitness (hop_problem m) w = hills (pos w)"
  "get_state (hop_problem m) w = pos w"
  by (simp_all add: hop_problem_def walk_problem_def)


lemma hop_rhc_run:
  "rhc_run (hop_problem m) (Suc (Suc 0)) start = Some \<lparr>pos = 3, popn = []\<rparr>"
  "rhc_run (hop_problem m) (Suc (Suc 0)) \<lparr>pos = 3, popn = []\<rparr>
     = Some \<lparr>pos = 6, popn = []\<rparr>"
  by (simp_all add: rhc_run_def loop.simps rhc_step_def hop_problem_def walk_problem_def
      hills_def start_def)

lemma exp_minus_five: "exp (- 5 :: real) < 1 / 2"
proof -
  have "1 + 5 \<le> exp (5 :: real)" by (rule exp_ge_add_one_self)
  then have "2 < exp (5 :: real)" by simp
  then have "1 / exp (5 :: real) < 1 / 2" by (simp add: field_simps)
  then show ?thesis by (simp add: exp_minus inverse_eq_divide)
qed

lemma hop_random_hill_climb:
  "random_hill_climb (hop_problem m) 2 2 start
     = Some (Some 3, Fin (m * 5), \<lparr>pos = 6, popn = []\<rparr>)"
  by (simp add: random_hill_climb_def numeral_2_eq_2 hop_rhc_run update_best_def orient_def
      hop_fields hills_def)

lemma endless_hc_step:
  "hc_step (walk_problem endless m) w = Continue (w\<lparr>pos := pos w + 1\<rparr>)"
  by (simp add: hc_step_def walk_problem_def endless_def)

lemma endless_hc_run: "hc_run (walk_problem endless m) w = None"
  unfolding hc_run_def
  by (rule loop_None [of "\<lambda>_. True"]) (simp_all add: endless_hc_step)

lemma endless_rhc_step:
  "attempts s < k \<Longrightarrow> rhc_step (walk_problem endless m) k s
     = Continue \<lparr>world = (world s)\<lparr>pos := pos (world s) + 1\<rparr>, attempts = 0\<rparr>"
  by (simp add: rhc_step_def walk_problem_def endless_def)

lemma endless_rhc_run: "0 < k \<Longrightarrow> rhc_run (walk_problem endless m) k w = None"
  unfolding rhc_run_def
  by (rule loop_None [of "\<lambda>s. attempts s = 0"]) (simp_all add: endless_rhc_step)

lemma walk_hc_descends: "descends (\<lambda>w. 3 - pos w) (hc_step (walk_problem capped m))"
  by (auto simp: descends_def hc_step_def walk_problem_def capped_def split: if_splits)

lemma walk_rhc_progress: "progress (\<lambda>w. 3 - pos w) (rhc_step (walk_problem capped m) k)"
  by (auto simp: progress_def rhc_step_def walk_problem_def capped_def split: if_splits)

lemma walk_select_child:
  "select_child (walk_problem capped m) a v = s' \<Longrightarrow>
     popn (world s') = popn v \<and>
     (if attempts s' = 0 then 3 - pos (world s') < 3 - pos v
      else 3 - pos (world s') \<le> 3 - pos v)"
  by (auto simp: select_child_def walk_problem_def capped_def split: if_splits)

lemma walk_ga_children:
  "ga_children (walk_problem f m) n mp i g w = Inr (g', w') \<Longrightarrow> w' = w"
proof (induction i arbitrary: g)
  case 0
  then show ?case by simp
next
  case (Suc i)
  from Suc.prems obtain child where "ga_children (walk_problem f m) n mp i (g @ [child]) w
      = Inr (g', w')"
    by (auto simp: walk_problem_def split: if_splits sum.splits)
  then show ?case by (rule Suc.IH)
qed

lemma walk_ga_progress:
  "progress (\<lambda>w. 3 - pos w) (ga_step (walk_problem capped m) n mp k)"
  unfolding progress_def
proof (intro allI impI)
  fix s s' assume "ga_step (walk_problem capped m) n mp k s = Continue s'"
  then obtain g w2 where
    c: "ga_children (walk_problem capped m) n mp n []
          (eval_mate_probs (walk_problem capped m) (world s)) = Inr (g, w2)"
    and s': "select_child (walk_problem capped m) (attempts s)
          (set_population (walk_problem capped m) g w2) = s'"
    by (auto simp: ga_step_def Let_def split: if_splits sum.splits)
  from walk_ga_children [OF c] have "w2 = world s" by (simp add: walk_problem_def)
  with walk_select_child [OF s'] show
    "if attempts s' = 0 then 3 - pos (world s') < 3 - pos (world s)
     else 3 - pos (world s') \<le> 3 - pos (world s)"
    by (auto simp: walk_problem_def split: if_splits)
qed

lemma walk_mimic_progress:
  "progress (\<lambda>w. 3 - pos w) (mimic_step (walk_problem capped m) n kp k)"
  unfolding progress_def
proof (intro allI impI)
  fix s s' assume "mimic_step (walk_problem capped m) n kp k s = Continue s'"
  then have s': "select_child (walk_problem capped m) (attempts s)
      ((world s)\<lparr>popn := replicate n (pos (world s) + 1)\<rparr>) = s'"
    by (auto simp: mimic_step_def Let_def walk_problem_def split: if_splits)
  from walk_select_child [OF s'] show
    "if attempts s' = 0 then 3 - pos (world s') < 3 - pos (world s)
     else 3 - pos (world s') \<le> 3 - pos (world s)"
    by (auto split: if_splits)
qed

lemma steep_sa_step:
  "attempts t < k \<Longrightarrow> sa_step (walk_problem steep m) (\<lambda>t. 1) k t
     = Continue \<lparr>world = world t, attempts = attempts t + 1, clock = clock t + 1\<rparr>"
proof -
  have "\<not> 1 < exp (- 5 :: real) * 2" using exp_minus_five by simp
  moreover assume "attempts t < k"
  ultimately show ?thesis
    by (simp add: sa_step_def sa_propose_def float_exp_def sa_decide_def py_div_def walk_problem_def
        steep_def algebra_simps)
qed

lemma steep_sa_progress:
  "progress (\<lambda>w. 0) (sa_step (walk_problem steep m) (\<lambda>t. 1) k)"
  unfolding progress_def
proof (intro allI impI)
  fix t t' assume s: "sa_step (walk_problem steep m) (\<lambda>t. 1) k t = Continue t'"
  then have "attempts t < k" by (simp add: sa_step_def split: if_splits)
  from steep_sa_step [OF this, of m] s have "attempts t' = attempts t + 1" by auto
  then show "if attempts t' = 0 then (0::nat) < 0 else (0::nat) \<le> 0" by simp
qed

lemma sa_step_stop:
  "\<not> attempts t < k \<Longrightarrow> sa_step P schedule k t = Break (Inr (world t))"
  by (simp add: sa_step_def)

lemma steep_simulated_annealing:
  "simulated_annealing (walk_problem steep 1) (\<lambda>t. 1) 2 start
     = Some (Inr (Some 0, Fin 0, start))"
  by (simp add: simulated_annealing_def report_def loop.simps steep_sa_step sa_step_stop
      numeral_2_eq_2 walk_fields steep_def start_def)

section \<open>The properties\<close>

subsection \<open>No restarts\<close>

text \<open>
  C10.  With \<open>restarts = 0\<close> the hill climbers do not touch the Problem: the
  world they leave is the world they got, no method but \<open>get_maximize\<close> is
  called.  They return \<open>None\<close> for the state and \<open>get_maximize()\<close> times minus
  infinity for the fitness, which is minus infinity for the orientation \<open>+1\<close>
  and plus infinity for \<open>-1\<close>.
\<close>

theorem no_restarts:
  "hill_climb P 0 w = Some (None, scale (get_maximize P w) NegInf, w) \<and>
   random_hill_climb P max_attempts 0 w = Some (None, scale (get_maximize P w) NegInf, w) \<and>
   scale 1 NegInf = NegInf \<and> scale (- 1) NegInf = PosInf"
  by (simp add: hill_climb_def random_hill_climb_def orient_def)

subsection \<open>Annealing at temperature zero\<close>

lemma sa_propose_nonzero:
  "temp \<noteq> 0 \<Longrightarrow> \<exists>c. sa_propose P temp w = Inr c"
  by (simp add: sa_propose_def py_div_def Let_def split: prod.splits)

lemma sa_step_no_error: "sa_step P schedule k s \<noteq> Break (Inl e)"
proof (cases "schedule (clock s) = 0")
  case True
  then show ?thesis by (simp add: sa_step_def)
next
  case False
  from sa_propose_nonzero [OF this, of P "world s"] obtain c
    where "sa_propose P (schedule (clock s)) (world s) = Inr c" by blast
  with False show ?thesis by (simp add: sa_step_def)
qed

text \<open>
  C2.  When \<open>schedule.evaluate(_t)\<close> is zero the iteration leaves the loop at
  once with the world as it stands: no neighbour has been drawn and nothing
  has been computed from it.  So a run that reaches such an iteration ends
  there, and the division \<open>delta_e/temp\<close> never sees a zero divisor: neither
  an iteration nor the driver ever ends in \<open>ZeroDivisionError\<close>.
\<close>

theorem zero_temperature:
  "(schedule (clock s) = 0 \<longrightarrow> sa_step P schedule k s = Break (Inr (world s))) \<and>
   (run (sa_step P schedule k) n s0 = Some s \<and> schedule (clock s) = 0 \<longrightarrow>
      loop (sa_step P schedule k) s0 = Some (Inr (world s))) \<and>
   sa_step P schedule k s \<noteq> Break (Inl ZeroDivisionError) \<and>
   simulated_annealing P schedule k w \<noteq> Some (Inl ZeroDivisionError)"
proof -
  have a: "schedule (clock s) = 0 \<Longrightarrow> sa_step P schedule k s = Break (Inr (world s))"
    by (simp add: sa_step_def)
  have b: "loop (sa_step P schedule k) s0 = Some (Inr (world s))"
    if "run (sa_step P schedule k) n s0 = Some s" "schedule (clock s) = 0"
    using loop_run [OF that(1)] loop_Break [of "sa_step P schedule k" s, OF a [OF that(2)]]
    by simp
  have c: "simulated_annealing P schedule k w \<noteq> Some (Inl ZeroDivisionError)"
  proof
    assume "simulated_annealing P schedule k w = Some (Inl ZeroDivisionError)"
    then have "loop (sa_step P schedule k) \<lparr>world = reset P w, attempts = 0, clock = 0\<rparr>
        = Some (Inl ZeroDivisionError)"
      by (simp add: simulated_annealing_def split: option.splits sum.splits)
    from loop_SomeD [OF this] sa_step_no_error [of P schedule k] show False by blast
  qed
  from a b c sa_step_no_error [of P schedule k s] show ?thesis by blast
qed

theorem zero_temperature_witness:
  "two_ticks (clock \<lparr>world = start, attempts = 0, clock = 2\<rparr>) = 0 \<and>
   sa_step (walk_problem flat 1) two_ticks 5 \<lparr>world = start, attempts = 0, clock = 2\<rparr>
     = Break (Inr start)"
  using zero_temperature [of two_ticks "\<lparr>world = start, attempts = 0, clock = 2\<rparr>"
      "walk_problem flat 1" 5 0 "\<lparr>world = start, attempts = 0, clock = 2\<rparr>" start]
  by (simp add: two_ticks_def)

subsection \<open>The acceptance probability\<close>

lemma sa_propose_Inr:
  assumes "sa_propose P temp w = Inr (x, v, delta_e, prob)"
  shows "temp \<noteq> 0 \<and> prob = np_exp P (delta_e / temp)"
  using assms
  by (auto simp: sa_propose_def py_div_def Let_def split: prod.splits if_splits)

lemma sa_decide_improving:
  "0 < delta_e \<Longrightarrow>
     sa_decide P s (x, v, delta_e, prob) = sa_decide P s (x, v, delta_e, prob')"
  by (simp add: sa_decide_def)

lemma sa_decide_draw:
  "delta_e \<le> 0 \<Longrightarrow>
     attempts (sa_decide P s (x, v, delta_e, prob))
       = (if fst (uniform P v) < prob then 0 else attempts s + 1)"
  by (simp add: sa_decide_def split: prod.splits)

lemma exp_contract_range:
  assumes "exp_contract P" "0 < temp" "delta_e \<le> 0"
  shows "delta_e / temp \<le> 0 \<and> 0 \<le> np_exp P (delta_e / temp) \<and>
         np_exp P (delta_e / temp) \<le> 1"
proof -
  from assms(2,3) have "delta_e / temp \<le> 0" by (simp add: divide_nonpos_pos)
  with assms(1) show ?thesis by (simp add: exp_contract_def)
qed

text \<open>
  C5, as the claim has it, fails: line 140 computes \<open>prob\<close> in every iteration,
  before line 145 looks at the sign of \<open>delta_e\<close>.  On the endless climb at
  temperature 1 the first iteration has \<open>delta_e = 1\<close> and computes
  \<open>prob = exp 1\<close>, which is greater than 1.  And where \<open>delta_e \<le> 0\<close> the
  value can be exactly zero: on the cliff at temperature 1 the first iteration
  has \<open>delta_e = -1000\<close>, and \<open>np.exp\<close> underflows to 0.
\<close>

theorem boltzmann_counterexample:
  "reset (walk_problem endless 1) start = start \<and>
   sa_propose (walk_problem endless 1) 1 start = Inr (1, start, 1, exp 1) \<and>
   (1::real) < exp 1 \<and>
   reset (walk_problem cliff 1) start = start \<and>
   sa_propose (walk_problem cliff 1) 1 start = Inr (1, start, - 1000, 0)"
  by (simp add: walk_problem_def start_def sa_propose_def float_exp_def py_div_def
      endless_def cliff_def)

text \<open>
  C5, amended.  Every iteration with a nonzero temperature computes \<open>prob\<close>, as
  \<open>np.exp\<close> of \<open>delta_e / temp\<close>, whatever the sign of \<open>delta_e\<close>.  The value is
  used only when \<open>delta_e \<le> 0\<close>: then it is compared with the random draw, and
  for \<open>delta_e > 0\<close> the decision is the same whatever \<open>prob\<close> is.  Where it is
  used with a positive temperature, the argument of \<open>np.exp\<close> is at most 0 and
  the value lies between 0 and 1, both included (\<open>np.exp\<close> keeps its contract:
  it maps a float that is not positive into that interval, to exactly 0 where
  it underflows).
\<close>

theorem boltzmann_used:
  "(temp \<noteq> 0 \<longrightarrow> (\<exists>c. sa_propose P temp w = Inr c)) \<and>
   (sa_propose P temp w = Inr (x, v, delta_e, prob) \<longrightarrow>
      temp \<noteq> 0 \<and> prob = np_exp P (delta_e / temp)) \<and>
   (0 < delta_e \<longrightarrow>
      sa_decide P s (x, v, delta_e, prob) = sa_decide P s (x, v, delta_e, prob')) \<and>
   (delta_e \<le> 0 \<longrightarrow>
      attempts (sa_decide P s (x, v, delta_e, prob))
        = (if fst (uniform P v) < prob then 0 else attempts s + 1)) \<and>
   (exp_contract P \<and> 0 < temp \<and> delta_e \<le> 0 \<and>
    sa_propose P temp w = Inr (x, v, delta_e, prob) \<longrightarrow>
      delta_e / temp \<le> 0 \<and> 0 \<le> prob \<and> prob \<le> 1)"
proof -
  have "delta_e / temp \<le> 0 \<and> 0 \<le> prob \<and> prob \<le> 1"
    if "exp_contract P" "0 < temp" "delta_e \<le> 0"
      "sa_propose P temp w = Inr (x, v, delta_e, prob)"
    using exp_contract_range [OF that(1,2,3)] sa_propose_Inr [OF that(4)] by simp
  with sa_propose_nonzero [of temp P w] sa_propose_Inr [of P temp w x v delta_e prob]
    sa_decide_improving [of delta_e P s x v prob prob']
    sa_decide_draw [of delta_e P s x v prob]
  show ?thesis by blast
qed

theorem boltzmann_used_witness:
  "(1::real) \<noteq> 0 \<and> exp_contract (walk_problem flat 1) \<and> (0::real) < 1 \<and> (0::real) \<le> 0 \<and>
   sa_propose (walk_problem flat 1) 1 start = Inr (1, start, 0, 1) \<and>
   attempts (sa_decide (walk_problem flat 1) \<lparr>world = start, attempts = 3, clock = 0\<rparr>
      (1, start, 0, 1)) = 0 \<and>
   exp_contract (walk_problem cliff 1) \<and> (- 1000::real) \<le> 0 \<and>
   sa_propose (walk_problem cliff 1) 1 start = Inr (1, start, - 1000, 0) \<and>
   attempts (sa_decide (walk_problem cliff 1) \<lparr>world = start, attempts = 3, clock = 0\<rparr>
      (1, start, - 1000, 0)) = 4 \<and>
   (0::real) < 1 \<and>
   sa_propose (walk_problem endless 1) 1 start = Inr (1, start, 1, exp 1) \<and>
   sa_decide (walk_problem endless 1) \<lparr>world = start, attempts = 3, clock = 0\<rparr>
      (1, start, 1, exp 1)
     = sa_decide (walk_problem endless 1) \<lparr>world = start, attempts = 3, clock = 0\<rparr>
      (1, start, 1, 0)"
proof -
  have e: "sa_propose (walk_problem flat 1) 1 start = Inr (1, start, 0, 1)"
    "sa_propose (walk_problem cliff 1) 1 start = Inr (1, start, - 1000, 0)"
    "sa_propose (walk_problem endless 1) 1 start = Inr (1, start, 1, exp 1)"
    by (simp_all add: walk_problem_def start_def sa_propose_def float_exp_def py_div_def
        flat_def cliff_def endless_def)
  have u: "fst (uniform (walk_problem flat 1) start) = 1 / 2"
    "fst (uniform (walk_problem cliff 1) start) = 1 / 2"
    by (simp_all add: walk_problem_def)
  from boltzmann_used [of 1 "walk_problem flat 1" start 1 start 0 1
      "\<lparr>world = start, attempts = 3, clock = 0\<rparr>" 0]
    boltzmann_used [of 1 "walk_problem cliff 1" start 1 start "- 1000" 0
      "\<lparr>world = start, attempts = 3, clock = 0\<rparr>" 1]
    boltzmann_used [of 1 "walk_problem endless 1" start 1 start 1 "exp 1"
      "\<lparr>world = start, attempts = 3, clock = 0\<rparr>" 0]
    walk_exp_contract [of flat 1] walk_exp_contract [of cliff 1] e u
  show ?thesis by (simp add: walk_np_exp float_exp_def)
qed

subsection \<open>Orientation\<close>

lemma scale_one: "scale 1 b = b"
  by (cases b) simp_all

lemma scale_minus_one: "scale (- 1) b = negated b"
  by (cases b) simp_all

lemma hill_climb_oriented:
  assumes "hill_climb P restarts w = Some (bs, f, w')"
  shows "\<exists>b. restarts_loop P (hc_run P) restarts (w, NegInf, None) = Some (w', b, bs) \<and>
           f = scale (get_maximize P w') b \<and>
           (get_maximize P w' = 1 \<longrightarrow> f = b) \<and>
           (get_maximize P w' = - 1 \<longrightarrow> f = negated b)"
proof -
  from assms obtain acc where acc: "restarts_loop P (hc_run P) restarts (w, NegInf, None) = Some acc"
    and o: "orient P acc = (bs, f, w')"
    by (auto simp: hill_climb_def)
  obtain w1 b bs1 where acc_eq: "acc = (w1, b, bs1)" by (cases acc)
  with o have "w1 = w'" "bs1 = bs" "f = scale (get_maximize P w') b"
    by (auto simp: orient_def)
  with acc acc_eq show ?thesis
    using scale_one [of b] scale_minus_one [of b] by auto
qed

lemma random_hill_climb_oriented:
  assumes "random_hill_climb P k restarts w = Some (bs, f, w')"
  shows "\<exists>b. restarts_loop P (rhc_run P k) restarts (w, NegInf, None) = Some (w', b, bs) \<and>
           f = scale (get_maximize P w') b \<and>
           (get_maximize P w' = 1 \<longrightarrow> f = b) \<and>
           (get_maximize P w' = - 1 \<longrightarrow> f = negated b)"
proof -
  from assms obtain acc where acc: "restarts_loop P (rhc_run P k) restarts (w, NegInf, None) = Some acc"
    and o: "orient P acc = (bs, f, w')"
    by (auto simp: random_hill_climb_def)
  obtain w1 b bs1 where acc_eq: "acc = (w1, b, bs1)" by (cases acc)
  with o have "w1 = w'" "bs1 = bs" "f = scale (get_maximize P w') b"
    by (auto simp: orient_def)
  with acc acc_eq show ?thesis
    using scale_one [of b] scale_minus_one [of b] by auto
qed

lemma report_oriented:
  assumes "report P w1 = (bs, f, w')"
  shows "w1 = w' \<and> bs = Some (get_state P w') \<and>
         f = scale (get_maximize P w') (Fin (get_fitness P w')) \<and>
         (get_maximize P w' = 1 \<longrightarrow> f = Fin (get_fitness P w')) \<and>
         (get_maximize P w' = - 1 \<longrightarrow> f = negated (Fin (get_fitness P w')))"
  using assms by (auto simp: report_def)

lemma simulated_annealing_oriented:
  assumes "simulated_annealing P schedule k w = Some (Inr (bs, f, w'))"
  shows "loop (sa_step P schedule k) \<lparr>world = reset P w, attempts = 0, clock = 0\<rparr> = Some (Inr w') \<and>
         bs = Some (get_state P w') \<and>
         f = scale (get_maximize P w') (Fin (get_fitness P w')) \<and>
         (get_maximize P w' = 1 \<longrightarrow> f = Fin (get_fitness P w')) \<and>
         (get_maximize P w' = - 1 \<longrightarrow> f = negated (Fin (get_fitness P w')))"
proof -
  from assms obtain w1 where
    l: "loop (sa_step P schedule k) \<lparr>world = reset P w, attempts = 0, clock = 0\<rparr> = Some (Inr w1)"
    and r: "report P w1 = (bs, f, w')"
    by (auto simp: simulated_annealing_def split: option.splits sum.splits)
  from report_oriented [OF r] l show ?thesis by simp
qed

lemma genetic_alg_oriented:
  assumes "genetic_alg P n mp k w = Some (Inr (bs, f, w'))"
  shows "loop (ga_step P n mp k) \<lparr>world = random_pop P n (reset P w), attempts = 0\<rparr> = Some (Inr w') \<and>
         bs = Some (get_state P w') \<and>
         f = scale (get_maximize P w') (Fin (get_fitness P w')) \<and>
         (get_maximize P w' = 1 \<longrightarrow> f = Fin (get_fitness P w')) \<and>
         (get_maximize P w' = - 1 \<longrightarrow> f = negated (Fin (get_fitness P w')))"
proof -
  from assms obtain w1 where
    l: "loop (ga_step P n mp k) \<lparr>world = random_pop P n (reset P w), attempts = 0\<rparr> = Some (Inr w1)"
    and r: "report P w1 = (bs, f, w')"
    by (auto simp: genetic_alg_def split: option.splits sum.splits)
  from report_oriented [OF r] l show ?thesis by simp
qed

lemma mimic_oriented:
  assumes "mimic P n kp k w = Some (bs, f, w')"
  shows "loop (mimic_step P n kp k) \<lparr>world = random_pop P n (reset P w), attempts = 0\<rparr> = Some w' \<and>
         bs = Some (astype_int P (get_state P w')) \<and>
         f = scale (get_maximize P w') (Fin (get_fitness P w')) \<and>
         (get_maximize P w' = 1 \<longrightarrow> f = Fin (get_fitness P w')) \<and>
         (get_maximize P w' = - 1 \<longrightarrow> f = negated (Fin (get_fitness P w')))"
  using assms by (auto simp: mimic_def split: option.splits)

text \<open>The loops never ask for the orientation.\<close>

lemma update_best_orientation:
  "update_best (P\<lparr>get_maximize := g\<rparr>) = update_best P"
  by (simp add: update_best_def fun_eq_iff)

lemma restarts_loop_orientation:
  "restarts_loop (P\<lparr>get_maximize := g\<rparr>) climb n acc = restarts_loop P climb n acc"
proof (induction n arbitrary: acc)
  case 0
  then show ?case by simp
next
  case (Suc n)
  obtain w b bs where "acc = (w, b, bs)" by (cases acc)
  with Suc show ?case by (simp add: update_best_orientation split: option.splits)
qed

lemma ga_children_orientation:
  "ga_children (P\<lparr>get_maximize := g\<rparr>) n mp i gen w = ga_children P n mp i gen w"
  by (induction i arbitrary: gen w) (simp_all split: prod.splits option.splits sum.splits)

lemma parts_orientation:
  "sa_propose (P\<lparr>get_maximize := g\<rparr>) = sa_propose P"
  "sa_decide (P\<lparr>get_maximize := g\<rparr>) = sa_decide P"
  "select_child (P\<lparr>get_maximize := g\<rparr>) = select_child P"
  by (simp_all add: fun_eq_iff sa_propose_def sa_decide_def select_child_def Let_def
      split: prod.splits sum.splits)

lemma steps_orientation:
  "hc_step (P\<lparr>get_maximize := g\<rparr>) = hc_step P"
  "rhc_step (P\<lparr>get_maximize := g\<rparr>) = rhc_step P"
  "sa_step (P\<lparr>get_maximize := g\<rparr>) = sa_step P"
  "ga_step (P\<lparr>get_maximize := g\<rparr>) = ga_step P"
  "mimic_step (P\<lparr>get_maximize := g\<rparr>) = mimic_step P"
  by (simp_all add: fun_eq_iff hc_step_def rhc_step_def sa_step_def parts_orientation
      ga_step_def ga_children_orientation mimic_step_def Let_def
      split: prod.splits sum.splits)

lemma runs_orientation:
  "hc_run (P\<lparr>get_maximize := g\<rparr>) = hc_run P"
  "rhc_run (P\<lparr>get_maximize := g\<rparr>) = rhc_run P"
  by (simp_all add: fun_eq_iff hc_run_def rhc_run_def steps_orientation)

text \<open>
  C1.  Whatever a driver returns, its fitness is \<open>get_maximize()\<close> times the
  best fitness the loops ended with: for the hill climbers the best fitness of
  the restart loop, for the other three the fitness of the Problem's final
  state.  For the orientation \<open>+1\<close> that is the internal value itself, for
  \<open>-1\<close> its negation.  The multiplication happens at the return and nowhere
  else: replacing \<open>get_maximize\<close> by any other function \<open>g\<close> changes nothing
  in the restart loops or in an iteration of the other loops.
\<close>

theorem orientation_applied_once:
  "(hill_climb P restarts w = Some (bs, f, w') \<longrightarrow>
      (\<exists>b. restarts_loop P (hc_run P) restarts (w, NegInf, None) = Some (w', b, bs) \<and>
           f = scale (get_maximize P w') b \<and>
           (get_maximize P w' = 1 \<longrightarrow> f = b) \<and>
           (get_maximize P w' = - 1 \<longrightarrow> f = negated b))) \<and>
   (random_hill_climb P k restarts w = Some (bs, f, w') \<longrightarrow>
      (\<exists>b. restarts_loop P (rhc_run P k) restarts (w, NegInf, None) = Some (w', b, bs) \<and>
           f = scale (get_maximize P w') b \<and>
           (get_maximize P w' = 1 \<longrightarrow> f = b) \<and>
           (get_maximize P w' = - 1 \<longrightarrow> f = negated b))) \<and>
   (simulated_annealing P schedule k w = Some (Inr (bs, f, w')) \<longrightarrow>
      loop (sa_step P schedule k) \<lparr>world = reset P w, attempts = 0, clock = 0\<rparr> = Some (Inr w') \<and>
      bs = Some (get_state P w') \<and>
      f = scale (get_maximize P w') (Fin (get_fitness P w')) \<and>
      (get_maximize P w' = 1 \<longrightarrow> f = Fin (get_fitness P w')) \<and>
      (get_maximize P w' = - 1 \<longrightarrow> f = negated (Fin (get_fitness P w')))) \<and>
   (genetic_alg P n mp k w = Some (Inr (bs, f, w')) \<longrightarrow>
      loop (ga_step P n mp k) \<lparr>world = random_pop P n (reset P w), attempts = 0\<rparr> = Some (Inr w') \<and>
      bs = Some (get_state P w') \<and>
      f = scale (get_maximize P w') (Fin (get_fitness P w')) \<and>
      (get_maximize P w' = 1 \<longrightarrow> f = Fin (get_fitness P w')) \<and>
      (get_maximize P w' = - 1 \<longrightarrow> f = negated (Fin (get_fitness P w')))) \<and>
   (mimic P n kp k w = Some (bs, f, w') \<longrightarrow>
      loop (mimic_step P n kp k) \<lparr>world = random_pop P n (reset P w), attempts = 0\<rparr> = Some w' \<and>
      bs = Some (astype_int P (get_state P w')) \<and>
      f = scale (get_maximize P w') (Fin (get_fitness P w')) \<and>
      (get_maximize P w' = 1 \<longrightarrow> f = Fin (get_fitness P w')) \<and>
      (get_maximize P w' = - 1 \<longrightarrow> f = negated (Fin (get_fitness P w')))) \<and>
   restarts_loop (P\<lparr>get_maximize := g\<rparr>) (hc_run (P\<lparr>get_maximize := g\<rparr>)) restarts acc
     = restarts_loop P (hc_run P) restarts acc \<and>
   restarts_loop (P\<lparr>get_maximize := g\<rparr>) (rhc_run (P\<lparr>get_maximize := g\<rparr>) k) restarts acc
     = restarts_loop P (rhc_run P k) restarts acc \<and>
   sa_step (P\<lparr>get_maximize := g\<rparr>) = sa_step P \<and>
   ga_step (P\<lparr>get_maximize := g\<rparr>) = ga_step P \<and>
   mimic_step (P\<lparr>get_maximize := g\<rparr>) = mimic_step P"
  using hill_climb_oriented [of P restarts w bs f w']
    random_hill_climb_oriented [of P k restarts w bs f w']
    simulated_annealing_oriented [of P schedule k w bs f w']
    genetic_alg_oriented [of P n mp k w bs f w']
    mimic_oriented [of P n kp k w bs f w']
  by (simp add: restarts_loop_orientation runs_orientation steps_orientation)

theorem orientation_applied_once_witness:
  "hill_climb (walk_problem capped (- 1)) 1 start
     = Some (Some 3, Fin (- 3), \<lparr>pos = 3, popn = []\<rparr>) \<and>
   random_hill_climb (walk_problem capped (- 1)) 2 1 start
     = Some (Some 3, Fin (- 3), \<lparr>pos = 3, popn = []\<rparr>) \<and>
   simulated_annealing (walk_problem capped (- 1)) two_ticks 5 start
     = Some (Inr (Some 2, Fin (- 2), \<lparr>pos = 2, popn = []\<rparr>)) \<and>
   genetic_alg (walk_problem capped (- 1)) 1 0 1 start
     = Some (Inr (Some 3, Fin (- 3), \<lparr>pos = 3, popn = [4]\<rparr>)) \<and>
   mimic (walk_problem capped (- 1)) 1 0 1 start
     = Some (Some 3, Fin (- 3), \<lparr>pos = 3, popn = [4]\<rparr>) \<and>
   get_maximize (walk_problem capped (- 1)) \<lparr>pos = 3, popn = []\<rparr> = - 1 \<and>
   restarts_loop (walk_problem capped (- 1)) (hc_run (walk_problem capped (- 1))) 1
       (start, NegInf, None) = Some (\<lparr>pos = 3, popn = []\<rparr>, Fin 3, Some 3) \<and>
   restarts_loop (walk_problem capped (- 1)) (rhc_run (walk_problem capped (- 1)) 2) 1
       (start, NegInf, None) = Some (\<lparr>pos = 3, popn = []\<rparr>, Fin 3, Some 3) \<and>
   get_fitness (walk_problem capped (- 1)) \<lparr>pos = 2, popn = []\<rparr> = 2 \<and>
   get_fitness (walk_problem capped (- 1)) \<lparr>pos = 3, popn = [4]\<rparr> = 3 \<and>
   Fin (- 3) = negated (Fin 3) \<and> Fin (- 2) = negated (Fin 2)"
  using
    orientation_applied_once [of "walk_problem capped (- 1)" 1 start "Some 3" "Fin (- 3)"
      "\<lparr>pos = 3, popn = []\<rparr>" 2 two_ticks 1 0 0 "\<lambda>w. 1" "(start, NegInf, None)"]
    orientation_applied_once [of "walk_problem capped (- 1)" 1 start "Some 2" "Fin (- 2)"
      "\<lparr>pos = 2, popn = []\<rparr>" 5 two_ticks 1 0 0 "\<lambda>w. 1" "(start, NegInf, None)"]
    orientation_applied_once [of "walk_problem capped (- 1)" 1 start "Some 3" "Fin (- 3)"
      "\<lparr>pos = 3, popn = [4]\<rparr>" 1 two_ticks 1 0 0 "\<lambda>w. 1" "(start, NegInf, None)"]
    walk_hill_climb [of "- 1"] walk_random_hill_climb [of "- 1"]
    walk_simulated_annealing [of "- 1"] walk_genetic_alg [of "- 1" 0] walk_mimic_result [of "- 1" 0]
  by (simp add: walk_fields capped_def walk_hc_run walk_rhc_run update_best_def)

subsection \<open>Monotone improvement\<close>

lemma run_monotone:
  fixes f :: "'s \<Rightarrow> real"
  assumes "\<And>a b. step a = Continue b \<Longrightarrow> f a \<le> f b"
  shows "run step n s = Some s' \<Longrightarrow> f s \<le> f s'"
proof (induction n arbitrary: s)
  case 0
  then show ?case by simp
next
  case (Suc n)
  then obtain a where a: "step s = Continue a" and r: "run step n a = Some s'"
    by (auto split: outcome.splits)
  from assms [OF a] Suc.IH [OF r] show ?case by simp
qed

lemma hc_step_Continue:
  assumes "fitness_contract P" "hc_step P w = Continue w'"
  shows "get_fitness P w < get_fitness P w'"
proof -
  obtain x w2 where b: "best_neighbor P (find_neighbors P w) = (x, w2)"
    by (cases "best_neighbor P (find_neighbors P w)")
  with assms(2) have lt: "get_fitness P w2 < eval_fitness P x w2" and w': "w' = set_state P x w2"
    by (auto simp: hc_step_def split: if_splits)
  from assms(1) b have "get_fitness P w2 = get_fitness P w"
    by (auto simp: fitness_contract_def dest: spec [of _ w])
  moreover from assms(1) w' have "get_fitness P w' = eval_fitness P x w2"
    by (simp add: fitness_contract_def)
  ultimately show ?thesis using lt by simp
qed

lemma hc_step_Break:
  assumes "fitness_contract P" "hc_step P w = Break r"
  shows "get_fitness P r = get_fitness P w"
proof -
  obtain x w2 where b: "best_neighbor P (find_neighbors P w) = (x, w2)"
    by (cases "best_neighbor P (find_neighbors P w)")
  with assms(2) have "r = w2"
    by (auto simp: hc_step_def split: if_splits)
  with assms(1) b show ?thesis
    by (auto simp: fitness_contract_def dest: spec [of _ w])
qed

lemma rhc_step_Continue:
  assumes "fitness_contract P" "rhc_step P k s = Continue s'"
  shows "(attempts s' = 0 \<longrightarrow> get_fitness P (world s) < get_fitness P (world s')) \<and>
         (attempts s' \<noteq> 0 \<longrightarrow> get_fitness P (world s') = get_fitness P (world s))"
proof -
  obtain x w1 where b: "random_neighbor P (world s) = (x, w1)"
    by (cases "random_neighbor P (world s)")
  from assms(1) b have f: "get_fitness P w1 = get_fitness P (world s)"
    by (auto simp: fitness_contract_def dest: spec [of _ "world s"])
  from assms(1) have c: "get_fitness P (set_state P x w1) = eval_fitness P x w1"
    by (simp add: fitness_contract_def)
  from assms(2) b f c show ?thesis
    by (auto simp: rhc_step_def split: if_splits)
qed

lemma rhc_step_Break: "rhc_step P k s = Break r \<Longrightarrow> r = world s"
  by (auto simp: rhc_step_def Let_def split: if_splits prod.splits)

text \<open>
  C8.  For a Problem that keeps its contract (\<open>set_state\<close> makes the fitness
  of the committed state the current fitness, looking for neighbours does not
  change the current fitness), the current fitness never goes down within a
  restart of \<open>hill_climb\<close> or of \<open>random_hill_climb\<close>: a pass that commits a
  state raises it strictly, a pass that rejects the candidate leaves it as it
  is, so it is non-decreasing along the run and up to the end of the restart.
\<close>

theorem monotone_improvement:
  assumes "fitness_contract P"
  shows "(hc_step P w = Continue w' \<longrightarrow> get_fitness P w < get_fitness P w') \<and>
    (run (hc_step P) n w = Some w1 \<and> run (hc_step P) m w1 = Some w2 \<longrightarrow>
       get_fitness P w1 \<le> get_fitness P w2) \<and>
    (loop (hc_step P) w = Some r \<longrightarrow> get_fitness P w \<le> get_fitness P r) \<and>
    (rhc_step P k s = Continue s' \<longrightarrow>
       (attempts s' = 0 \<longrightarrow> get_fitness P (world s) < get_fitness P (world s')) \<and>
       (attempts s' \<noteq> 0 \<longrightarrow> get_fitness P (world s') = get_fitness P (world s))) \<and>
    (run (rhc_step P k) n s = Some s1 \<and> run (rhc_step P k) m s1 = Some s2 \<longrightarrow>
       get_fitness P (world s1) \<le> get_fitness P (world s2)) \<and>
    (loop (rhc_step P k) s = Some r \<longrightarrow> get_fitness P (world s) \<le> get_fitness P r)"
proof -
  have hc: "get_fitness P a \<le> get_fitness P b" if "hc_step P a = Continue b" for a b
    using hc_step_Continue [OF assms that] by simp
  have rhc: "get_fitness P (world a) \<le> get_fitness P (world b)"
    if "rhc_step P k a = Continue b" for a b
    using rhc_step_Continue [OF assms that] by (cases "attempts b = 0") simp_all
  have 1: "get_fitness P w1 \<le> get_fitness P w2" if "run (hc_step P) m w1 = Some w2"
    using run_monotone [of "hc_step P" "get_fitness P", OF hc that] .
  have 2: "get_fitness P w \<le> get_fitness P r" if "loop (hc_step P) w = Some r"
  proof -
    from loop_SomeD [OF that] obtain i a where a: "run (hc_step P) i w = Some a"
      and b: "hc_step P a = Break r" by blast
    from run_monotone [of "hc_step P" "get_fitness P", OF hc a] hc_step_Break [OF assms b]
    show ?thesis by simp
  qed
  have 3: "get_fitness P (world s1) \<le> get_fitness P (world s2)"
    if "run (rhc_step P k) m s1 = Some s2"
    using run_monotone [of "rhc_step P k" "\<lambda>a. get_fitness P (world a)", OF rhc that] .
  have 4: "get_fitness P (world s) \<le> get_fitness P r" if "loop (rhc_step P k) s = Some r"
  proof -
    from loop_SomeD [OF that] obtain i a where a: "run (rhc_step P k) i s = Some a"
      and b: "rhc_step P k a = Break r" by blast
    from run_monotone [of "rhc_step P k" "\<lambda>a. get_fitness P (world a)", OF rhc a]
      rhc_step_Break [OF b]
    show ?thesis by simp
  qed
  from 1 2 3 4 hc_step_Continue [OF assms, of w w'] rhc_step_Continue [OF assms, of k s s']
  show ?thesis by blast
qed

theorem monotone_improvement_witness:
  "fitness_contract (walk_problem capped 1) \<and>
   hc_step (walk_problem capped 1) start = Continue \<lparr>pos = 1, popn = []\<rparr> \<and>
   run (hc_step (walk_problem capped 1)) 1 start = Some \<lparr>pos = 1, popn = []\<rparr> \<and>
   run (hc_step (walk_problem capped 1)) 2 \<lparr>pos = 1, popn = []\<rparr> = Some \<lparr>pos = 3, popn = []\<rparr> \<and>
   loop (hc_step (walk_problem capped 1)) start = Some \<lparr>pos = 3, popn = []\<rparr> \<and>
   rhc_step (walk_problem capped 1) 2 \<lparr>world = start, attempts = 0\<rparr>
     = Continue \<lparr>world = \<lparr>pos = 1, popn = []\<rparr>, attempts = 0\<rparr> \<and>
   run (rhc_step (walk_problem capped 1) 2) 1 \<lparr>world = start, attempts = 0\<rparr>
     = Some \<lparr>world = \<lparr>pos = 1, popn = []\<rparr>, attempts = 0\<rparr> \<and>
   run (rhc_step (walk_problem capped 1) 2) 2 \<lparr>world = \<lparr>pos = 1, popn = []\<rparr>, attempts = 0\<rparr>
     = Some \<lparr>world = \<lparr>pos = 3, popn = []\<rparr>, attempts = 0\<rparr> \<and>
   loop (rhc_step (walk_problem capped 1) 2) \<lparr>world = start, attempts = 0\<rparr>
     = Some \<lparr>pos = 3, popn = []\<rparr> \<and>
   get_fitness (walk_problem capped 1) start = 0 \<and>
   get_fitness (walk_problem capped 1) \<lparr>pos = 1, popn = []\<rparr> = 1 \<and>
   get_fitness (walk_problem capped 1) \<lparr>pos = 3, popn = []\<rparr> = 3"
proof -
  have c: "fitness_contract (walk_problem capped 1)"
    by (rule walk_fitness_contract)
  have e: "hc_step (walk_problem capped 1) start = Continue \<lparr>pos = 1, popn = []\<rparr>"
    "run (hc_step (walk_problem capped 1)) 1 start = Some \<lparr>pos = 1, popn = []\<rparr>"
    "run (hc_step (walk_problem capped 1)) 2 \<lparr>pos = 1, popn = []\<rparr> = Some \<lparr>pos = 3, popn = []\<rparr>"
    "loop (hc_step (walk_problem capped 1)) start = Some \<lparr>pos = 3, popn = []\<rparr>"
    "rhc_step (walk_problem capped 1) 2 \<lparr>world = start, attempts = 0\<rparr>
       = Continue \<lparr>world = \<lparr>pos = 1, popn = []\<rparr>, attempts = 0\<rparr>"
    "run (rhc_step (walk_problem capped 1) 2) 1 \<lparr>world = start, attempts = 0\<rparr>
       = Some \<lparr>world = \<lparr>pos = 1, popn = []\<rparr>, attempts = 0\<rparr>"
    "run (rhc_step (walk_problem capped 1) 2) 2 \<lparr>world = \<lparr>pos = 1, popn = []\<rparr>, attempts = 0\<rparr>
       = Some \<lparr>world = \<lparr>pos = 3, popn = []\<rparr>, attempts = 0\<rparr>"
    "loop (rhc_step (walk_problem capped 1) 2) \<lparr>world = start, attempts = 0\<rparr>
       = Some \<lparr>pos = 3, popn = []\<rparr>"
    by (simp_all add: loop.simps hc_step_def rhc_step_def walk_problem_def
        capped_def start_def numeral_2_eq_2 numeral_3_eq_3)
  have f: "get_fitness (walk_problem capped 1) start = 0"
    "get_fitness (walk_problem capped 1) \<lparr>pos = 1, popn = []\<rparr> = 1"
    "get_fitness (walk_problem capped 1) \<lparr>pos = 3, popn = []\<rparr> = 3"
    by (simp_all add: walk_fields capped_def start_def)
  from monotone_improvement [OF c, of start "\<lparr>pos = 1, popn = []\<rparr>"
      1 "\<lparr>pos = 1, popn = []\<rparr>" 2 "\<lparr>pos = 3, popn = []\<rparr>" "\<lparr>pos = 3, popn = []\<rparr>"
      2 "\<lparr>world = start, attempts = 0\<rparr>" "\<lparr>world = \<lparr>pos = 1, popn = []\<rparr>, attempts = 0\<rparr>"
      "\<lparr>world = \<lparr>pos = 1, popn = []\<rparr>, attempts = 0\<rparr>"
      "\<lparr>world = \<lparr>pos = 3, popn = []\<rparr>, attempts = 0\<rparr>"] c e f
  show ?thesis by simp
qed

subsection \<open>The local optimum\<close>

lemma hc_step_cases:
  assumes "best_neighbor P (find_neighbors P w) = (x, w2)"
  shows "hc_step P w =
    (if get_fitness P w2 < eval_fitness P x w2 then Continue (set_state P x w2) else Break w2)"
  using assms by (simp add: hc_step_def)

lemma best_neighbor_contractD:
  assumes "best_neighbor_contract P nbrs" "best_neighbor P (find_neighbors P w) = (x, w2)"
  shows "x \<in> nbrs w" "y \<in> nbrs w \<Longrightarrow> eval_fitness P y w2 \<le> eval_fitness P x w2"
  using assms unfolding best_neighbor_contract_def by (auto dest!: spec [of _ w])

lemma hc_step_Break_iff:
  assumes "best_neighbor_contract P nbrs"
  shows "hc_step P w = Break r \<longleftrightarrow>
    r = snd (best_neighbor P (find_neighbors P w)) \<and>
    (\<forall>y \<in> nbrs w. eval_fitness P y r \<le> get_fitness P r)"
proof -
  obtain x w2 where b: "best_neighbor P (find_neighbors P w) = (x, w2)"
    by (cases "best_neighbor P (find_neighbors P w)")
  note c = best_neighbor_contractD [OF assms b]
  show ?thesis
  proof (cases "get_fitness P w2 < eval_fitness P x w2")
    case True
    with c(1) b show ?thesis
      by (auto simp: hc_step_cases [OF b] not_le intro: bexI [of _ x])
  next
    case False
    have "eval_fitness P y w2 \<le> get_fitness P w2" if "y \<in> nbrs w" for y
      using c(2) [OF that] False by simp
    with False b show ?thesis
      by (auto simp: hc_step_cases [OF b])
  qed
qed

lemma hc_step_Continue_iff:
  assumes "best_neighbor_contract P nbrs"
  shows "hc_step P w = Continue w' \<longleftrightarrow>
    (\<exists>x w2. best_neighbor P (find_neighbors P w) = (x, w2) \<and> x \<in> nbrs w \<and>
       get_fitness P w2 < eval_fitness P x w2 \<and> w' = set_state P x w2)"
proof -
  obtain x w2 where b: "best_neighbor P (find_neighbors P w) = (x, w2)"
    by (cases "best_neighbor P (find_neighbors P w)")
  from best_neighbor_contractD(1) [OF assms b] b show ?thesis
    by (auto simp: hc_step_cases [OF b])
qed

text \<open>
  C6.  For a Problem whose \<open>best_neighbor\<close> returns a neighbour of the greatest
  fitness: a pass of the inner loop of \<open>hill_climb\<close> moves exactly when the best
  neighbour is strictly fitter than the current state, and then to that
  neighbour; it leaves the loop exactly when no neighbour is strictly fitter.
  The loop ends with \<open>r\<close> exactly when some number of passes have moved and
  the next one finds no neighbour strictly fitter: the first such pass, since
  every pass before it moved.  The loop state is the world alone; there is no
  counter of attempts in it.
\<close>

theorem local_optimum:
  assumes "best_neighbor_contract P nbrs"
  shows "(hc_step P w = Continue w' \<longleftrightarrow>
       (\<exists>x w2. best_neighbor P (find_neighbors P w) = (x, w2) \<and> x \<in> nbrs w \<and>
          get_fitness P w2 < eval_fitness P x w2 \<and> w' = set_state P x w2)) \<and>
    (hc_step P w = Break r \<longleftrightarrow>
       r = snd (best_neighbor P (find_neighbors P w)) \<and>
       (\<forall>y \<in> nbrs w. eval_fitness P y r \<le> get_fitness P r)) \<and>
    (loop (hc_step P) w = Some r \<longleftrightarrow>
       (\<exists>n a. run (hc_step P) n w = Some a \<and>
          r = snd (best_neighbor P (find_neighbors P a)) \<and>
          (\<forall>y \<in> nbrs a. eval_fitness P y r \<le> get_fitness P r)))"
proof -
  have "loop (hc_step P) w = Some r \<longleftrightarrow>
       (\<exists>n a. run (hc_step P) n w = Some a \<and> hc_step P a = Break r)"
    by (rule loop_Some_iff)
  then show ?thesis
    using hc_step_Continue_iff [OF assms, of w w'] hc_step_Break_iff [OF assms]
    by simp
qed

theorem local_optimum_witness:
  "best_neighbor_contract (walk_problem capped 1) walk_nbrs \<and>
   hc_step (walk_problem capped 1) start = Continue \<lparr>pos = 1, popn = []\<rparr> \<and>
   best_neighbor (walk_problem capped 1) (find_neighbors (walk_problem capped 1) start)
     = (1, start) \<and> 1 \<in> walk_nbrs start \<and>
   get_fitness (walk_problem capped 1) start < eval_fitness (walk_problem capped 1) 1 start \<and>
   hc_step (walk_problem capped 1) \<lparr>pos = 3, popn = []\<rparr> = Break \<lparr>pos = 3, popn = []\<rparr> \<and>
   loop (hc_step (walk_problem capped 1)) start = Some \<lparr>pos = 3, popn = []\<rparr> \<and>
   run (hc_step (walk_problem capped 1)) 3 start = Some \<lparr>pos = 3, popn = []\<rparr> \<and>
   walk_nbrs \<lparr>pos = 3, popn = []\<rparr> = {4} \<and>
   eval_fitness (walk_problem capped 1) 4 \<lparr>pos = 3, popn = []\<rparr>
     \<le> get_fitness (walk_problem capped 1) \<lparr>pos = 3, popn = []\<rparr>"
proof -
  have c: "best_neighbor_contract (walk_problem capped 1) walk_nbrs"
    by (rule walk_best_neighbor_contract)
  have e: "hc_step (walk_problem capped 1) start = Continue \<lparr>pos = 1, popn = []\<rparr>"
    "hc_step (walk_problem capped 1) \<lparr>pos = 3, popn = []\<rparr> = Break \<lparr>pos = 3, popn = []\<rparr>"
    "loop (hc_step (walk_problem capped 1)) start = Some \<lparr>pos = 3, popn = []\<rparr>"
    "run (hc_step (walk_problem capped 1)) 3 start = Some \<lparr>pos = 3, popn = []\<rparr>"
    by (simp_all add: loop.simps hc_step_def walk_problem_def capped_def start_def
        numeral_3_eq_3)
  have f: "best_neighbor (walk_problem capped 1) (find_neighbors (walk_problem capped 1) start)
       = (1, start)"
    "1 \<in> walk_nbrs start" "walk_nbrs \<lparr>pos = 3, popn = []\<rparr> = {4}"
    "get_fitness (walk_problem capped 1) start < eval_fitness (walk_problem capped 1) 1 start"
    "eval_fitness (walk_problem capped 1) 4 \<lparr>pos = 3, popn = []\<rparr>
       \<le> get_fitness (walk_problem capped 1) \<lparr>pos = 3, popn = []\<rparr>"
    by (simp_all add: walk_problem_def walk_nbrs_def capped_def start_def)
  from local_optimum [OF c, of start "\<lparr>pos = 1, popn = []\<rparr>" "\<lparr>pos = 3, popn = []\<rparr>"]
    local_optimum [OF c, of "\<lparr>pos = 3, popn = []\<rparr>" start "\<lparr>pos = 3, popn = []\<rparr>"] c e f
  show ?thesis by simp
qed

subsection \<open>The size of the population\<close>

lemma ga_children_length:
  "ga_children P n mp i gen w = Inr (g, w') \<Longrightarrow> length g = length gen + i"
proof (induction i arbitrary: gen w)
  case 0
  then show ?case by simp
next
  case (Suc i)
  from Suc.prems obtain child w2
    where "ga_children P n mp i (gen @ [child]) w2 = Inr (g, w')"
    by (auto split: prod.splits option.splits sum.splits)
  from Suc.IH [OF this] show ?case by simp
qed

lemma select_child_population:
  assumes "population_contract P"
  shows "get_population P (world (select_child P a w)) = get_population P w"
proof -
  obtain x w1 where b: "best_child P w = (x, w1)" by (cases "best_child P w")
  from assms have "get_population P (snd (best_child P w)) = get_population P w"
    and "get_population P (set_state P x w1) = get_population P w1"
    by (simp_all add: population_contract_def)
  with b show ?thesis by (simp add: select_child_def)
qed

lemma ga_step_population:
  assumes "population_contract P" "ga_step P n mp k s = Continue s'"
  shows "length (get_population P (world s')) = n"
proof -
  from assms(2) obtain g w2
    where c: "ga_children P n mp n [] (eval_mate_probs P (world s)) = Inr (g, w2)"
      and s': "s' = select_child P (attempts s) (set_population P g w2)"
    by (auto simp: ga_step_def Let_def split: if_splits sum.splits)
  from assms(1) have "get_population P (set_population P g w2) = g"
    by (simp add: population_contract_def)
  with select_child_population [OF assms(1)] s' ga_children_length [OF c]
  show ?thesis by simp
qed

lemma mimic_step_population:
  assumes "population_contract P" "mimic_step P n kp k s = Continue s'"
  shows "length (get_population P (world s')) = n"
proof -
  obtain g w3
    where c: "sample_pop P n (eval_node_probs P (find_top_pct P kp (world s))) = (g, w3)"
    by (cases "sample_pop P n (eval_node_probs P (find_top_pct P kp (world s)))")
  with assms(2) have s': "s' = select_child P (attempts s) (set_population P g w3)"
    by (auto simp: mimic_step_def Let_def split: if_splits)
  from assms(1) have "get_population P (set_population P g w3) = g"
    and "length (fst (sample_pop P n (eval_node_probs P (find_top_pct P kp (world s))))) = n"
    by (simp_all add: population_contract_def)
  with select_child_population [OF assms(1)] s' c
  show ?thesis by simp
qed

text \<open>
  C9.  \<open>genetic_alg\<close> hands \<open>set_population\<close> a list of exactly \<open>pop_size\<close>
  children.  For a Problem that keeps its contract (\<open>set_population\<close> stores
  what it is given, \<open>best_child\<close> and \<open>set_state\<close> leave the population alone,
  \<open>sample_pop n\<close> returns \<open>n\<close> states) the population has length \<open>pop_size\<close>
  after a generation of \<open>genetic_alg\<close> and of \<open>mimic\<close>, and so after every
  positive number of generations of a run.
\<close>

theorem population_size:
  assumes "population_contract P"
  shows "(ga_children P n mp n [] w = Inr (g, w') \<longrightarrow> length g = n) \<and>
    (ga_step P n mp k s = Continue s' \<longrightarrow> length (get_population P (world s')) = n) \<and>
    (run (ga_step P n mp k) (Suc i) s = Some s' \<longrightarrow> length (get_population P (world s')) = n) \<and>
    (mimic_step P n kp k s = Continue s' \<longrightarrow> length (get_population P (world s')) = n) \<and>
    (run (mimic_step P n kp k) (Suc i) s = Some s' \<longrightarrow>
       length (get_population P (world s')) = n)"
proof -
  have 1: "length (get_population P (world s')) = n"
    if "run (ga_step P n mp k) (Suc i) s = Some s'"
    using run_Suc_last [OF that] ga_step_population [OF assms] by blast
  have 2: "length (get_population P (world s')) = n"
    if "run (mimic_step P n kp k) (Suc i) s = Some s'"
    using run_Suc_last [OF that] mimic_step_population [OF assms] by blast
  from 1 2 ga_children_length [of P n mp n "[]" w g w'] ga_step_population [OF assms]
    mimic_step_population [OF assms]
  show ?thesis by auto
qed

theorem population_size_witness:
  "population_contract (walk_problem capped 1) \<and>
   ga_children (walk_problem capped 1) 2 0 2 [] \<lparr>pos = 0, popn = [0, 0]\<rparr>
     = Inr ([1, 1], \<lparr>pos = 0, popn = [0, 0]\<rparr>) \<and>
   ga_step (walk_problem capped 1) 2 0 1 \<lparr>world = \<lparr>pos = 0, popn = [0, 0]\<rparr>, attempts = 0\<rparr>
     = Continue \<lparr>world = \<lparr>pos = 1, popn = [1, 1]\<rparr>, attempts = 0\<rparr> \<and>
   run (ga_step (walk_problem capped 1) 2 0 1) (Suc 1)
       \<lparr>world = \<lparr>pos = 0, popn = [0, 0]\<rparr>, attempts = 0\<rparr>
     = Some \<lparr>world = \<lparr>pos = 2, popn = [2, 2]\<rparr>, attempts = 0\<rparr> \<and>
   mimic_step (walk_problem capped 1) 2 0 1 \<lparr>world = \<lparr>pos = 0, popn = [0, 0]\<rparr>, attempts = 0\<rparr>
     = Continue \<lparr>world = \<lparr>pos = 1, popn = [1, 1]\<rparr>, attempts = 0\<rparr> \<and>
   run (mimic_step (walk_problem capped 1) 2 0 1) (Suc 1)
       \<lparr>world = \<lparr>pos = 0, popn = [0, 0]\<rparr>, attempts = 0\<rparr>
     = Some \<lparr>world = \<lparr>pos = 2, popn = [2, 2]\<rparr>, attempts = 0\<rparr> \<and>
   length (get_population (walk_problem capped 1) \<lparr>pos = 1, popn = [1, 1]\<rparr>) = 2 \<and>
   length (get_population (walk_problem capped 1) \<lparr>pos = 2, popn = [2, 2]\<rparr>) = 2"
proof -
  have c: "population_contract (walk_problem capped 1)"
    by (rule walk_population_contract)
  have e: "ga_children (walk_problem capped 1) 2 0 2 [] \<lparr>pos = 0, popn = [0, 0]\<rparr>
       = Inr ([1, 1], \<lparr>pos = 0, popn = [0, 0]\<rparr>)"
    "ga_step (walk_problem capped 1) 2 0 1 \<lparr>world = \<lparr>pos = 0, popn = [0, 0]\<rparr>, attempts = 0\<rparr>
       = Continue \<lparr>world = \<lparr>pos = 1, popn = [1, 1]\<rparr>, attempts = 0\<rparr>"
    "run (ga_step (walk_problem capped 1) 2 0 1) (Suc 1)
         \<lparr>world = \<lparr>pos = 0, popn = [0, 0]\<rparr>, attempts = 0\<rparr>
       = Some \<lparr>world = \<lparr>pos = 2, popn = [2, 2]\<rparr>, attempts = 0\<rparr>"
    "mimic_step (walk_problem capped 1) 2 0 1 \<lparr>world = \<lparr>pos = 0, popn = [0, 0]\<rparr>, attempts = 0\<rparr>
       = Continue \<lparr>world = \<lparr>pos = 1, popn = [1, 1]\<rparr>, attempts = 0\<rparr>"
    "run (mimic_step (walk_problem capped 1) 2 0 1) (Suc 1)
         \<lparr>world = \<lparr>pos = 0, popn = [0, 0]\<rparr>, attempts = 0\<rparr>
       = Some \<lparr>world = \<lparr>pos = 2, popn = [2, 2]\<rparr>, attempts = 0\<rparr>"
    by (simp_all add: ga_step_def mimic_step_def select_child_def index_def walk_problem_def
        capped_def numeral_2_eq_2)
  from population_size [OF c, of 2 0 "\<lparr>pos = 0, popn = [0, 0]\<rparr>" "[1, 1]"
      "\<lparr>pos = 0, popn = [0, 0]\<rparr>" 1 "\<lparr>world = \<lparr>pos = 0, popn = [0, 0]\<rparr>, attempts = 0\<rparr>"
      "\<lparr>world = \<lparr>pos = 1, popn = [1, 1]\<rparr>, attempts = 0\<rparr>" 1 0]
    population_size [OF c, of 2 0 "\<lparr>pos = 0, popn = [0, 0]\<rparr>" "[1, 1]"
      "\<lparr>pos = 0, popn = [0, 0]\<rparr>" 1 "\<lparr>world = \<lparr>pos = 0, popn = [0, 0]\<rparr>, attempts = 0\<rparr>"
      "\<lparr>world = \<lparr>pos = 2, popn = [2, 2]\<rparr>, attempts = 0\<rparr>" 1 0]
    c e
  show ?thesis by simp
qed

subsection \<open>The best of all restarts\<close>

lemma exceeds_mono: "exceeds x b \<Longrightarrow> x \<le> y \<Longrightarrow> exceeds y b"
  by (cases b) simp_all

lemma not_exceeds_le: "\<not> exceeds x b \<Longrightarrow> exceeds y b \<Longrightarrow> x \<le> y"
  by (cases b) simp_all

lemma restarts_loop_best:
  assumes "restarts_loop P climb n (w, bf, bs) = Some (w', bf', bs')"
  shows "\<exists>fs. restart_finals climb n w = Some fs \<and> length fs = n \<and> w' = last (w # fs) \<and>
     ((bf' = bf \<and> bs' = bs \<and> (\<forall>x \<in> set fs. \<not> exceeds (get_fitness P x) bf)) \<or>
      (\<exists>x \<in> set fs. bf' = Fin (get_fitness P x) \<and> bs' = Some (get_state P x) \<and>
         exceeds (get_fitness P x) bf \<and>
         (\<forall>y \<in> set fs. get_fitness P y \<le> get_fitness P x)))"
  using assms
proof (induction n arbitrary: w bf bs)
  case 0
  then show ?case by simp
next
  case (Suc n)
  from Suc.prems obtain w1 where c: "climb w = Some w1"
    and r: "restarts_loop P climb n (update_best P w1 bf bs) = Some (w', bf', bs')"
    by (auto split: option.splits)
  show ?case
  proof (cases "exceeds (get_fitness P w1) bf")
    case True
    with r have "restarts_loop P climb n (w1, Fin (get_fitness P w1), Some (get_state P w1))
        = Some (w', bf', bs')"
      by (simp add: update_best_def)
    from Suc.IH [OF this] obtain fs where fs: "restart_finals climb n w1 = Some fs"
      "length fs = n" "w' = last (w1 # fs)"
      and d: "(bf' = Fin (get_fitness P w1) \<and> bs' = Some (get_state P w1) \<and>
           (\<forall>x \<in> set fs. \<not> exceeds (get_fitness P x) (Fin (get_fitness P w1)))) \<or>
        (\<exists>x \<in> set fs. bf' = Fin (get_fitness P x) \<and> bs' = Some (get_state P x) \<and>
           exceeds (get_fitness P x) (Fin (get_fitness P w1)) \<and>
           (\<forall>y \<in> set fs. get_fitness P y \<le> get_fitness P x))"
      by blast
    have "\<exists>x \<in> set (w1 # fs). bf' = Fin (get_fitness P x) \<and> bs' = Some (get_state P x) \<and>
         exceeds (get_fitness P x) bf \<and>
         (\<forall>y \<in> set (w1 # fs). get_fitness P y \<le> get_fitness P x)"
      using d
    proof
      assume "bf' = Fin (get_fitness P w1) \<and> bs' = Some (get_state P w1) \<and>
           (\<forall>x \<in> set fs. \<not> exceeds (get_fitness P x) (Fin (get_fitness P w1)))"
      with True show ?thesis by (auto simp: not_less)
    next
      assume "\<exists>x \<in> set fs. bf' = Fin (get_fitness P x) \<and> bs' = Some (get_state P x) \<and>
           exceeds (get_fitness P x) (Fin (get_fitness P w1)) \<and>
           (\<forall>y \<in> set fs. get_fitness P y \<le> get_fitness P x)"
      then obtain x where x: "x \<in> set fs" "bf' = Fin (get_fitness P x)"
        "bs' = Some (get_state P x)" "get_fitness P w1 < get_fitness P x"
        "\<forall>y \<in> set fs. get_fitness P y \<le> get_fitness P x"
        by auto
      from exceeds_mono [OF True, of "get_fitness P x"] x(4)
      have "exceeds (get_fitness P x) bf" by simp
      with x show ?thesis by auto
    qed
    with c fs show ?thesis by auto
  next
    case False
    with r have "restarts_loop P climb n (w1, bf, bs) = Some (w', bf', bs')"
      by (simp add: update_best_def)
    from Suc.IH [OF this] obtain fs where fs: "restart_finals climb n w1 = Some fs"
      "length fs = n" "w' = last (w1 # fs)"
      and d: "(bf' = bf \<and> bs' = bs \<and> (\<forall>x \<in> set fs. \<not> exceeds (get_fitness P x) bf)) \<or>
        (\<exists>x \<in> set fs. bf' = Fin (get_fitness P x) \<and> bs' = Some (get_state P x) \<and>
           exceeds (get_fitness P x) bf \<and>
           (\<forall>y \<in> set fs. get_fitness P y \<le> get_fitness P x))"
      by blast
    have "(bf' = bf \<and> bs' = bs \<and> (\<forall>x \<in> set (w1 # fs). \<not> exceeds (get_fitness P x) bf)) \<or>
        (\<exists>x \<in> set (w1 # fs). bf' = Fin (get_fitness P x) \<and> bs' = Some (get_state P x) \<and>
           exceeds (get_fitness P x) bf \<and>
           (\<forall>y \<in> set (w1 # fs). get_fitness P y \<le> get_fitness P x))"
      using d
    proof
      assume "bf' = bf \<and> bs' = bs \<and> (\<forall>x \<in> set fs. \<not> exceeds (get_fitness P x) bf)"
      with False show ?thesis by auto
    next
      assume "\<exists>x \<in> set fs. bf' = Fin (get_fitness P x) \<and> bs' = Some (get_state P x) \<and>
           exceeds (get_fitness P x) bf \<and>
           (\<forall>y \<in> set fs. get_fitness P y \<le> get_fitness P x)"
      then obtain x where x: "x \<in> set fs" "bf' = Fin (get_fitness P x)"
        "bs' = Some (get_state P x)" "exceeds (get_fitness P x) bf"
        "\<forall>y \<in> set fs. get_fitness P y \<le> get_fitness P x"
        by auto
      from not_exceeds_le [OF False x(4)] have "get_fitness P w1 \<le> get_fitness P x" .
      with x show ?thesis by auto
    qed
    with c fs show ?thesis by auto
  qed
qed

lemma restarts_loop_Max:
  assumes "0 < n" "restarts_loop P climb n (w, NegInf, None) = Some (w', b, bs)"
  shows "\<exists>fs. restart_finals climb n w = Some fs \<and> length fs = n \<and> w' = last fs \<and>
     b = Fin (Max (get_fitness P ` set fs)) \<and>
     (\<exists>x \<in> set fs. bs = Some (get_state P x) \<and>
        get_fitness P x = Max (get_fitness P ` set fs))"
proof -
  from restarts_loop_best [OF assms(2)] obtain fs where fs: "restart_finals climb n w = Some fs"
    "length fs = n" "w' = last (w # fs)"
    and d: "(b = NegInf \<and> bs = None \<and> (\<forall>x \<in> set fs. \<not> exceeds (get_fitness P x) NegInf)) \<or>
      (\<exists>x \<in> set fs. b = Fin (get_fitness P x) \<and> bs = Some (get_state P x) \<and>
         exceeds (get_fitness P x) NegInf \<and>
         (\<forall>y \<in> set fs. get_fitness P y \<le> get_fitness P x))"
    by blast
  from fs(2) assms(1) have ne: "fs \<noteq> []" by auto
  with d obtain x where x: "x \<in> set fs" "b = Fin (get_fitness P x)"
    "bs = Some (get_state P x)" "\<forall>y \<in> set fs. get_fitness P y \<le> get_fitness P x"
    by (cases fs) auto
  have "Max (get_fitness P ` set fs) = get_fitness P x"
    using x(1,4) by (intro Max_eqI) auto
  with x fs ne show ?thesis by auto
qed



subsection \<open>The bound on attempts\<close>

lemma rejections_counted:
  assumes "\<And>a b. step a = Continue b \<Longrightarrow>
      attempts a < k \<and> (attempts b = 0 \<or> attempts b = attempts a + 1)"
  shows "rejections step j s \<Longrightarrow> j = 0 \<or> attempts s + j \<le> k"
proof (induction j arbitrary: s)
  case 0
  then show ?case by simp
next
  case (Suc j)
  then obtain b where b: "step s = Continue b" and nz: "attempts b \<noteq> 0"
    and r: "rejections step j b"
    by (auto split: outcome.splits)
  from assms [OF b] nz have "attempts s < k" "attempts b = attempts s + 1" by auto
  with Suc.IH [OF r] show ?case by auto
qed

lemma rejections_bounded:
  assumes "\<And>a b. step a = Continue b \<Longrightarrow>
      attempts a < k \<and> (attempts b = 0 \<or> attempts b = attempts a + 1)"
    and "rejections step j s"
  shows "j \<le> k"
  using rejections_counted [of step k j s, OF assms] by auto

lemma select_child_attempts:
  "attempts (select_child P a w) =
     (if get_fitness P (snd (best_child P w))
           < eval_fitness P (fst (best_child P w)) (snd (best_child P w))
      then 0 else a + 1)"
  by (simp add: select_child_def split: prod.splits)

lemma rhc_step_counts:
  assumes "rhc_step P k s = Continue s'"
  shows "attempts s < k \<and>
     attempts s' =
       (if get_fitness P (snd (random_neighbor P (world s)))
             < eval_fitness P (fst (random_neighbor P (world s)))
                 (snd (random_neighbor P (world s)))
        then 0 else attempts s + 1)"
  using assms by (auto simp: rhc_step_def split: if_splits prod.splits)

lemma sa_decide_attempts:
  "attempts (sa_decide P s c) = 0 \<or> attempts (sa_decide P s c) = attempts s + 1"
  by (auto simp: sa_decide_def split: prod.splits)

lemma sa_step_counts:
  assumes "sa_step P schedule k s = Continue s'"
  shows "attempts s < k \<and> (attempts s' = 0 \<or> attempts s' = attempts s + 1)"
proof -
  from assms obtain c where "attempts s < k" "s' = sa_decide P s c"
    by (auto simp: sa_step_def Let_def split: if_splits sum.splits)
  with sa_decide_attempts [of P s c] show ?thesis by auto
qed

lemma ga_step_counts:
  assumes "ga_step P n mp k s = Continue s'"
  shows "attempts s < k \<and> (\<exists>w. s' = select_child P (attempts s) w)"
  using assms by (auto simp: ga_step_def Let_def split: if_splits sum.splits)

lemma mimic_step_counts:
  assumes "mimic_step P n kp k s = Continue s'"
  shows "attempts s < k \<and> (\<exists>w. s' = select_child P (attempts s) w)"
  using assms by (auto simp: mimic_step_def Let_def split: if_splits prod.splits)

lemma step_counts:
  "rhc_step P k s = Continue s' \<Longrightarrow>
     attempts s < k \<and> (attempts s' = 0 \<or> attempts s' = attempts s + 1)"
  "ga_step P n mp k s = Continue s' \<Longrightarrow>
     attempts s < k \<and> (attempts s' = 0 \<or> attempts s' = attempts s + 1)"
  "mimic_step P n kp k s = Continue s' \<Longrightarrow>
     attempts s < k \<and> (attempts s' = 0 \<or> attempts s' = attempts s + 1)"
proof -
  show "rhc_step P k s = Continue s' \<Longrightarrow>
     attempts s < k \<and> (attempts s' = 0 \<or> attempts s' = attempts s + 1)"
    using rhc_step_counts [of P k s s'] by (simp split: if_splits)
  show "ga_step P n mp k s = Continue s' \<Longrightarrow>
     attempts s < k \<and> (attempts s' = 0 \<or> attempts s' = attempts s + 1)"
    using ga_step_counts [of P n mp k s s'] by (auto simp: select_child_attempts split: if_splits)
  show "mimic_step P n kp k s = Continue s' \<Longrightarrow>
     attempts s < k \<and> (attempts s' = 0 \<or> attempts s' = attempts s + 1)"
    using mimic_step_counts [of P n kp k s s'] by (auto simp: select_child_attempts split: if_splits)
qed

lemma rejections_bounds:
  "rejections (rhc_step P k) j s \<Longrightarrow> j \<le> k"
  "rejections (sa_step P schedule k) j t \<Longrightarrow> j \<le> k"
  "rejections (ga_step P n mp k) j s \<Longrightarrow> j \<le> k"
  "rejections (mimic_step P n kp k) j s \<Longrightarrow> j \<le> k"
proof -
  show "j \<le> k" if "rejections (rhc_step P k) j s"
  proof (rule rejections_bounded [OF _ that])
    fix a b assume "rhc_step P k a = Continue b"
    then show "attempts a < k \<and> (attempts b = 0 \<or> attempts b = attempts a + 1)"
      by (rule step_counts)
  qed
  show "j \<le> k" if "rejections (sa_step P schedule k) j t"
  proof (rule rejections_bounded [OF _ that])
    fix a b assume "sa_step P schedule k a = Continue b"
    then show "attempts a < k \<and> (attempts b = 0 \<or> attempts b = attempts a + 1)"
      by (rule sa_step_counts)
  qed
  show "j \<le> k" if "rejections (ga_step P n mp k) j s"
  proof (rule rejections_bounded [OF _ that])
    fix a b assume "ga_step P n mp k a = Continue b"
    then show "attempts a < k \<and> (attempts b = 0 \<or> attempts b = attempts a + 1)"
      by (rule step_counts)
  qed
  show "j \<le> k" if "rejections (mimic_step P n kp k) j s"
  proof (rule rejections_bounded [OF _ that])
    fix a b assume "mimic_step P n kp k a = Continue b"
    then show "attempts a < k \<and> (attempts b = 0 \<or> attempts b = attempts a + 1)"
      by (rule step_counts)
  qed
qed


lemma sa_decide_counts:
  "attempts (sa_decide P t (x, w1, delta_e, prob)) =
     (if 0 < delta_e \<or> fst (uniform P w1) < prob then 0 else attempts t + 1)"
  by (simp add: sa_decide_def split: prod.splits)

lemma random_hill_climb_best:
  assumes "0 < restarts" "random_hill_climb P k restarts w = Some (bs, f, w')"
  shows "\<exists>b. restarts_loop P (rhc_run P k) restarts (w, NegInf, None) = Some (w', Fin b, bs) \<and>
     f = Fin (get_maximize P w' * b) \<and> get_fitness P w' \<le> b"
proof -
  from random_hill_climb_oriented [OF assms(2)] obtain b
    where b: "restarts_loop P (rhc_run P k) restarts (w, NegInf, None) = Some (w', b, bs)"
      and f: "f = scale (get_maximize P w') b"
    by blast
  from restarts_loop_Max [OF assms(1) b] obtain fs where fs: "length fs = restarts"
    "w' = last fs" "b = Fin (Max (get_fitness P ` set fs))"
    by blast
  from fs(1) assms(1) have "fs \<noteq> []" by auto
  then have "get_fitness P (last fs) \<le> Max (get_fitness P ` set fs)"
    by (intro Max_ge) auto
  with b f fs show ?thesis by auto
qed

text \<open>
  C3, as the claim has it, fails twice.  In \<open>simulated_annealing\<close> a candidate
  that is no improvement can be accepted, and an accepted move resets
  \<open>attempts\<close>: on the plain, with \<open>max_attempts = 1\<close>, two passes in a row take
  place and neither candidate improves on the current fitness (\<open>delta_e\<close> is 0
  both times).  And the fitness reported to the caller carries the
  orientation: with \<open>get_maximize() = -1\<close> the run reports \<open>-2\<close> for a final
  state whose fitness is 2.  On the two hills \<open>random_hill_climb\<close> with two
  restarts and \<open>get_maximize() = -1\<close> reports \<open>-5\<close>, while its final state has
  the fitness 2, which is \<open>-2\<close> in the caller's orientation: the report is
  below both.
\<close>

theorem attempt_bound_counterexample:
  "run (sa_step (walk_problem flat 1) two_ticks 1) 2 \<lparr>world = start, attempts = 0, clock = 0\<rparr>
     = Some \<lparr>world = \<lparr>pos = 2, popn = []\<rparr>, attempts = 0, clock = 2\<rparr> \<and>
   sa_propose (walk_problem flat 1) 1 start = Inr (1, start, 0, 1) \<and>
   sa_propose (walk_problem flat 1) 1 \<lparr>pos = 1, popn = []\<rparr>
     = Inr (2, \<lparr>pos = 1, popn = []\<rparr>, 0, 1) \<and>
   \<not> (2::nat) \<le> 1 \<and>
   simulated_annealing (walk_problem capped (- 1)) two_ticks 5 start
     = Some (Inr (Some 2, Fin (- 2), \<lparr>pos = 2, popn = []\<rparr>)) \<and>
   get_fitness (walk_problem capped (- 1)) \<lparr>pos = 2, popn = []\<rparr> = 2 \<and>
   \<not> (2::real) \<le> - 2 \<and>
   random_hill_climb (hop_problem (- 1)) 2 2 start
     = Some (Some 3, Fin (- 5), \<lparr>pos = 6, popn = []\<rparr>) \<and>
   get_fitness (hop_problem (- 1)) \<lparr>pos = 6, popn = []\<rparr> = 2 \<and>
   get_maximize (hop_problem (- 1)) \<lparr>pos = 6, popn = []\<rparr> = - 1 \<and>
   \<not> (2::real) \<le> - 5 \<and> \<not> (- 1 * 2::real) \<le> - 5"
proof -
  have "run (sa_step (walk_problem flat 1) two_ticks 1) 2
      \<lparr>world = start, attempts = 0, clock = 0\<rparr>
     = Some \<lparr>world = \<lparr>pos = 2, popn = []\<rparr>, attempts = 0, clock = 2\<rparr>"
    by (simp add: numeral_2_eq_2 sa_step_def sa_propose_def float_exp_def sa_decide_def py_div_def
        two_ticks_def walk_problem_def flat_def start_def)
  moreover have "sa_propose (walk_problem flat 1) 1 start = Inr (1, start, 0, 1)"
    "sa_propose (walk_problem flat 1) 1 \<lparr>pos = 1, popn = []\<rparr>
       = Inr (2, \<lparr>pos = 1, popn = []\<rparr>, 0, 1)"
    by (simp_all add: sa_propose_def float_exp_def py_div_def walk_problem_def flat_def start_def)
  moreover have "get_fitness (walk_problem capped (- 1)) \<lparr>pos = 2, popn = []\<rparr> = 2"
    "get_fitness (hop_problem (- 1)) \<lparr>pos = 6, popn = []\<rparr> = 2"
    "get_maximize (hop_problem (- 1)) \<lparr>pos = 6, popn = []\<rparr> = - 1"
    by (simp_all add: walk_fields capped_def hop_fields hills_def)
  ultimately show ?thesis
    using walk_simulated_annealing [of "- 1"] hop_random_hill_climb [of "- 1"] by simp
qed

text \<open>
  C3, amended.  In \<open>random_hill_climb\<close>, \<open>simulated_annealing\<close>, \<open>genetic_alg\<close>
  and \<open>mimic\<close> a pass takes place only while \<open>attempts < max_attempts\<close>, an
  accepted candidate resets \<open>attempts\<close> to zero and a rejected one adds one to
  it, so at most \<open>max_attempts\<close> passes in a row reject their candidate.  In
  \<open>random_hill_climb\<close>, \<open>genetic_alg\<close> and \<open>mimic\<close> the rejected candidates
  are those that do not improve on the current fitness; in
  \<open>simulated_annealing\<close> they are those with \<open>delta_e \<le> 0\<close> that also lose the
  random draw.  The fitness reported is \<open>get_maximize()\<close> times a best fitness
  that is at least the fitness of the final state: equal to it for the three
  single-run drivers, and for \<open>random_hill_climb\<close> with at least one restart
  the greatest over the restarts.
\<close>

theorem attempt_bound:
  "(rhc_step P k s = Continue s' \<longrightarrow>
      attempts s < k \<and>
      attempts s' =
        (if get_fitness P (snd (random_neighbor P (world s)))
              < eval_fitness P (fst (random_neighbor P (world s)))
                  (snd (random_neighbor P (world s)))
         then 0 else attempts s + 1)) \<and>
   (rejections (rhc_step P k) j s \<longrightarrow> j \<le> k) \<and>
   (sa_step P schedule k t = Continue t' \<longrightarrow>
      attempts t < k \<and> (attempts t' = 0 \<or> attempts t' = attempts t + 1)) \<and>
   attempts (sa_decide P t (x, u, delta_e, prob)) =
     (if 0 < delta_e \<or> fst (uniform P u) < prob then 0 else attempts t + 1) \<and>
   (rejections (sa_step P schedule k) j t \<longrightarrow> j \<le> k) \<and>
   (ga_step P n mp k s = Continue s' \<longrightarrow>
      attempts s < k \<and> (\<exists>v. s' = select_child P (attempts s) v)) \<and>
   (rejections (ga_step P n mp k) j s \<longrightarrow> j \<le> k) \<and>
   (mimic_step P n kp k s = Continue s' \<longrightarrow>
      attempts s < k \<and> (\<exists>v. s' = select_child P (attempts s) v)) \<and>
   (rejections (mimic_step P n kp k) j s \<longrightarrow> j \<le> k) \<and>
   attempts (select_child P a v) =
     (if get_fitness P (snd (best_child P v))
           < eval_fitness P (fst (best_child P v)) (snd (best_child P v))
      then 0 else a + 1) \<and>
   (0 < restarts \<and> random_hill_climb P k restarts w = Some (bs, f, w') \<longrightarrow>
      (\<exists>b. restarts_loop P (rhc_run P k) restarts (w, NegInf, None) = Some (w', Fin b, bs) \<and>
         f = Fin (get_maximize P w' * b) \<and> get_fitness P w' \<le> b)) \<and>
   (simulated_annealing P schedule k w = Some (Inr (bs, f, w')) \<longrightarrow>
      f = Fin (get_maximize P w' * get_fitness P w')) \<and>
   (genetic_alg P n mp k w = Some (Inr (bs, f, w')) \<longrightarrow>
      f = Fin (get_maximize P w' * get_fitness P w')) \<and>
   (mimic P n kp k w = Some (bs, f, w') \<longrightarrow>
      f = Fin (get_maximize P w' * get_fitness P w'))"
  using rhc_step_counts [of P k s s'] sa_step_counts [of P schedule k t t']
    ga_step_counts [of P n mp k s s'] mimic_step_counts [of P n kp k s s']
    rejections_bounds(1) [of P k j s] rejections_bounds(2) [of P schedule k j t]
    rejections_bounds(3) [of P n mp k j s] rejections_bounds(4) [of P n kp k j s]
    sa_decide_counts [of P t x u delta_e prob] select_child_attempts [of P a v]
    random_hill_climb_best [of restarts P k w bs f w']
    simulated_annealing_oriented [of P schedule k w bs f w']
    genetic_alg_oriented [of P n mp k w bs f w']
    mimic_oriented [of P n kp k w bs f w']
  by simp

theorem attempt_bound_witness:
  "rhc_step (walk_problem capped 1) 2 \<lparr>world = \<lparr>pos = 3, popn = []\<rparr>, attempts = 0\<rparr>
     = Continue \<lparr>world = \<lparr>pos = 3, popn = []\<rparr>, attempts = 1\<rparr> \<and>
   rejections (rhc_step (walk_problem capped 1) 2) 2
     \<lparr>world = \<lparr>pos = 3, popn = []\<rparr>, attempts = 0\<rparr> \<and>
   sa_step (hop_problem 1) two_ticks 2 \<lparr>world = \<lparr>pos = 3, popn = []\<rparr>, attempts = 0, clock = 0\<rparr>
     = Continue \<lparr>world = \<lparr>pos = 3, popn = []\<rparr>, attempts = 1, clock = 1\<rparr> \<and>
   rejections (sa_step (hop_problem 1) two_ticks 2) 2
     \<lparr>world = \<lparr>pos = 3, popn = []\<rparr>, attempts = 0, clock = 0\<rparr> \<and>
   ga_step (walk_problem capped 1) 1 0 1 \<lparr>world = \<lparr>pos = 3, popn = [3]\<rparr>, attempts = 0\<rparr>
     = Continue \<lparr>world = \<lparr>pos = 3, popn = [4]\<rparr>, attempts = 1\<rparr> \<and>
   rejections (ga_step (walk_problem capped 1) 1 0 1) 1
     \<lparr>world = \<lparr>pos = 3, popn = [3]\<rparr>, attempts = 0\<rparr> \<and>
   mimic_step (walk_problem capped 1) 1 0 1 \<lparr>world = \<lparr>pos = 3, popn = [3]\<rparr>, attempts = 0\<rparr>
     = Continue \<lparr>world = \<lparr>pos = 3, popn = [4]\<rparr>, attempts = 1\<rparr> \<and>
   rejections (mimic_step (walk_problem capped 1) 1 0 1) 1
     \<lparr>world = \<lparr>pos = 3, popn = [3]\<rparr>, attempts = 0\<rparr> \<and>
   (0::nat) < 2 \<and>
   random_hill_climb (hop_problem 1) 2 2 start = Some (Some 3, Fin 5, \<lparr>pos = 6, popn = []\<rparr>) \<and>
   get_fitness (hop_problem 1) \<lparr>pos = 6, popn = []\<rparr> = 2 \<and>
   simulated_annealing (walk_problem capped 1) two_ticks 5 start
     = Some (Inr (Some 2, Fin 2, \<lparr>pos = 2, popn = []\<rparr>)) \<and>
   get_fitness (walk_problem capped 1) \<lparr>pos = 2, popn = []\<rparr> = 2 \<and>
   genetic_alg (walk_problem capped 1) 1 0 1 start
     = Some (Inr (Some 3, Fin 3, \<lparr>pos = 3, popn = [4]\<rparr>)) \<and>
   mimic (walk_problem capped 1) 1 0 1 start = Some (Some 3, Fin 3, \<lparr>pos = 3, popn = [4]\<rparr>) \<and>
   get_fitness (walk_problem capped 1) \<lparr>pos = 3, popn = [4]\<rparr> = 3"
proof -
  have ne: "\<not> 1 < exp (- 5 :: real) * 2"
    using exp_minus_five by simp
  have e: "rhc_step (walk_problem capped 1) 2 \<lparr>world = \<lparr>pos = 3, popn = []\<rparr>, attempts = 0\<rparr>
      = Continue \<lparr>world = \<lparr>pos = 3, popn = []\<rparr>, attempts = 1\<rparr>"
    "rejections (rhc_step (walk_problem capped 1) 2) 2
      \<lparr>world = \<lparr>pos = 3, popn = []\<rparr>, attempts = 0\<rparr>"
    "ga_step (walk_problem capped 1) 1 0 1 \<lparr>world = \<lparr>pos = 3, popn = [3]\<rparr>, attempts = 0\<rparr>
      = Continue \<lparr>world = \<lparr>pos = 3, popn = [4]\<rparr>, attempts = 1\<rparr>"
    "rejections (ga_step (walk_problem capped 1) 1 0 1) 1
      \<lparr>world = \<lparr>pos = 3, popn = [3]\<rparr>, attempts = 0\<rparr>"
    "mimic_step (walk_problem capped 1) 1 0 1 \<lparr>world = \<lparr>pos = 3, popn = [3]\<rparr>, attempts = 0\<rparr>
      = Continue \<lparr>world = \<lparr>pos = 3, popn = [4]\<rparr>, attempts = 1\<rparr>"
    "rejections (mimic_step (walk_problem capped 1) 1 0 1) 1
      \<lparr>world = \<lparr>pos = 3, popn = [3]\<rparr>, attempts = 0\<rparr>"
    by (simp_all add: numeral_2_eq_2 rhc_step_def ga_step_def mimic_step_def select_child_def
        index_def walk_problem_def capped_def)
  have a: "sa_step (hop_problem 1) two_ticks 2
        \<lparr>world = \<lparr>pos = 3, popn = []\<rparr>, attempts = 0, clock = 0\<rparr>
      = Continue \<lparr>world = \<lparr>pos = 3, popn = []\<rparr>, attempts = 1, clock = 1\<rparr>"
    "rejections (sa_step (hop_problem 1) two_ticks 2) 2
      \<lparr>world = \<lparr>pos = 3, popn = []\<rparr>, attempts = 0, clock = 0\<rparr>"
    by (simp_all add: numeral_2_eq_2 sa_step_def sa_propose_def float_exp_def sa_decide_def py_div_def
        two_ticks_def hop_problem_def walk_problem_def hills_def ne)
  have f: "get_fitness (hop_problem 1) \<lparr>pos = 6, popn = []\<rparr> = 2"
    "get_fitness (walk_problem capped 1) \<lparr>pos = 2, popn = []\<rparr> = 2"
    "get_fitness (walk_problem capped 1) \<lparr>pos = 3, popn = [4]\<rparr> = 3"
    by (simp_all add: hop_fields hills_def walk_fields capped_def)
  from
    attempt_bound [where P = "walk_problem capped 1"
      and k = 2
      and s = "\<lparr>world = \<lparr>pos = 3, popn = []\<rparr>, attempts = 0\<rparr>"
      and s' = "\<lparr>world = \<lparr>pos = 3, popn = []\<rparr>, attempts = 1\<rparr>"
      and j = 2
      and schedule = two_ticks
      and t = "\<lparr>world = \<lparr>pos = 3, popn = []\<rparr>, attempts = 0, clock = 0\<rparr>"
      and t' = "\<lparr>world = \<lparr>pos = 3, popn = []\<rparr>, attempts = 1, clock = 1\<rparr>"
      and x = 4
      and u = "\<lparr>pos = 3, popn = []\<rparr>"
      and delta_e = "- 5"
      and prob = "exp (- 5)"
      and n = 1
      and mp = 0
      and kp = 0
      and a = 0
      and v = "\<lparr>pos = 3, popn = [4]\<rparr>"
      and restarts = 2
      and w = start
      and bs = "Some 3"
      and f = "Fin 5"
      and w' = "\<lparr>pos = 6, popn = []\<rparr>"]
    attempt_bound [where P = "hop_problem 1"
      and k = 2
      and s = "\<lparr>world = \<lparr>pos = 3, popn = []\<rparr>, attempts = 0\<rparr>"
      and s' = "\<lparr>world = \<lparr>pos = 3, popn = []\<rparr>, attempts = 1\<rparr>"
      and j = 2
      and schedule = two_ticks
      and t = "\<lparr>world = \<lparr>pos = 3, popn = []\<rparr>, attempts = 0, clock = 0\<rparr>"
      and t' = "\<lparr>world = \<lparr>pos = 3, popn = []\<rparr>, attempts = 1, clock = 1\<rparr>"
      and x = 4
      and u = "\<lparr>pos = 3, popn = []\<rparr>"
      and delta_e = "- 5"
      and prob = "exp (- 5)"
      and n = 1
      and mp = 0
      and kp = 0
      and a = 0
      and v = "\<lparr>pos = 3, popn = [4]\<rparr>"
      and restarts = 2
      and w = start
      and bs = "Some 3"
      and f = "Fin 5"
      and w' = "\<lparr>pos = 6, popn = []\<rparr>"]
    attempt_bound [where P = "walk_problem capped 1"
      and k = 1
      and s = "\<lparr>world = \<lparr>pos = 3, popn = [3]\<rparr>, attempts = 0\<rparr>"
      and s' = "\<lparr>world = \<lparr>pos = 3, popn = [4]\<rparr>, attempts = 1\<rparr>"
      and j = 1
      and schedule = two_ticks
      and t = "\<lparr>world = \<lparr>pos = 3, popn = []\<rparr>, attempts = 0, clock = 0\<rparr>"
      and t' = "\<lparr>world = \<lparr>pos = 3, popn = []\<rparr>, attempts = 1, clock = 1\<rparr>"
      and x = 4
      and u = "\<lparr>pos = 3, popn = []\<rparr>"
      and delta_e = "- 5"
      and prob = "exp (- 5)"
      and n = 1
      and mp = 0
      and kp = 0
      and a = 0
      and v = "\<lparr>pos = 3, popn = [4]\<rparr>"
      and restarts = 2
      and w = start
      and bs = "Some 3"
      and f = "Fin 3"
      and w' = "\<lparr>pos = 3, popn = [4]\<rparr>"]
    attempt_bound [where P = "walk_problem capped 1"
      and k = 5
      and s = "\<lparr>world = \<lparr>pos = 3, popn = []\<rparr>, attempts = 0\<rparr>"
      and s' = "\<lparr>world = \<lparr>pos = 3, popn = []\<rparr>, attempts = 1\<rparr>"
      and j = 2
      and schedule = two_ticks
      and t = "\<lparr>world = \<lparr>pos = 3, popn = []\<rparr>, attempts = 0, clock = 0\<rparr>"
      and t' = "\<lparr>world = \<lparr>pos = 3, popn = []\<rparr>, attempts = 1, clock = 1\<rparr>"
      and x = 4
      and u = "\<lparr>pos = 3, popn = []\<rparr>"
      and delta_e = "- 5"
      and prob = "exp (- 5)"
      and n = 1
      and mp = 0
      and kp = 0
      and a = 0
      and v = "\<lparr>pos = 3, popn = [4]\<rparr>"
      and restarts = 2
      and w = start
      and bs = "Some 2"
      and f = "Fin 2"
      and w' = "\<lparr>pos = 2, popn = []\<rparr>"]
    e a f hop_random_hill_climb [of 1] walk_simulated_annealing [of 1] walk_genetic_alg [of 1 0]
    walk_mimic_result [of 1 0]
  show ?thesis by simp
qed

subsection \<open>Termination\<close>

lemma descends_terminates:
  assumes "descends rank step"
  shows "\<exists>r. loop step s = Some r"
proof (rule loop_terminates [of "measure rank" "\<lambda>_. True"])
  show "wf (measure rank)" by simp
  show True ..
  fix a b assume "step a = Continue b"
  with assms show "True \<and> (b, a) \<in> measure rank"
    by (simp add: descends_def)
qed

lemma progress_terminates:
  assumes "progress rank step"
    and "\<And>a b. step a = Continue b \<Longrightarrow>
      attempts a < k \<and> (attempts b = 0 \<or> attempts b = attempts a + 1)"
  shows "\<exists>r. loop step s = Some r"
proof (rule loop_terminates
    [of "inv_image (less_than <*lex*> less_than) (\<lambda>a. (rank (world a), k - attempts a))"
      "\<lambda>_. True"])
  show "wf (inv_image (less_than <*lex*> less_than) (\<lambda>a. (rank (world a), k - attempts a)))"
    by (intro wf_inv_image wf_lex_prod wf_less_than)
  show True ..
  fix a b assume s: "step a = Continue b"
  from assms(1) s have
    p: "if attempts b = 0 then rank (world b) < rank (world a)
        else rank (world b) \<le> rank (world a)"
    unfolding progress_def by blast
  from assms(2) [OF s] have c: "attempts a < k"
    "attempts b = 0 \<or> attempts b = attempts a + 1" by simp_all
  show "True \<and> (b, a) \<in>
      inv_image (less_than <*lex*> less_than) (\<lambda>a. (rank (world a), k - attempts a))"
  proof (cases "attempts b = 0")
    case True
    with p show ?thesis by simp
  next
    case False
    with p c show ?thesis by auto
  qed
qed

lemma schedule_terminates:
  assumes "schedule t0 = 0" "clock s \<le> t0"
  shows "\<exists>r. loop (sa_step P schedule k) s = Some r"
proof (rule loop_terminates [of "measure (\<lambda>a. t0 - clock a)" "\<lambda>a. clock a \<le> t0"])
  show "wf (measure (\<lambda>a. t0 - clock a))" by simp
  show "clock s \<le> t0" by (rule assms(2))
  fix a b :: "'a sa_state"
  assume le: "clock a \<le> t0" and s: "sa_step P schedule k a = Continue b"
  from s obtain c where nz: "schedule (clock a) \<noteq> 0" and b: "b = sa_decide P a c"
    by (auto simp: sa_step_def Let_def split: if_splits sum.splits)
  from b have "clock b = clock a + 1"
    by (auto simp: sa_decide_def split: prod.splits if_splits)
  moreover from nz assms(1) le have "clock a < t0"
    by (cases "clock a = t0") auto
  ultimately show "clock b \<le> t0 \<and> (b, a) \<in> measure (\<lambda>a. t0 - clock a)"
    by auto
qed

lemma restarts_loop_terminates:
  assumes "\<And>v. \<exists>v'. climb v = Some v'"
  shows "\<exists>r. restarts_loop P climb n (w, b, bs) = Some r"
proof (induction n arbitrary: w b bs)
  case 0
  then show ?case by simp
next
  case (Suc n)
  from assms [of w] obtain v' where v': "climb w = Some v'" by blast
  obtain w1 b1 bs1 where "update_best P v' b bs = (w1, b1, bs1)"
    by (cases "update_best P v' b bs")
  with Suc.IH [of w1 b1 bs1] v' show ?case by simp
qed

lemma loops_terminate:
  "progress rank (rhc_step P k) \<Longrightarrow> \<exists>r. loop (rhc_step P k) s = Some r"
  "progress rank (sa_step P schedule k) \<Longrightarrow> \<exists>r. loop (sa_step P schedule k) t = Some r"
  "progress rank (ga_step P n mp k) \<Longrightarrow> \<exists>r. loop (ga_step P n mp k) s = Some r"
  "progress rank (mimic_step P n kp k) \<Longrightarrow> \<exists>r. loop (mimic_step P n kp k) s = Some r"
proof -
  show "\<exists>r. loop (rhc_step P k) s = Some r" if "progress rank (rhc_step P k)"
  proof (rule progress_terminates [OF that])
    fix a b assume "rhc_step P k a = Continue b"
    then show "attempts a < k \<and> (attempts b = 0 \<or> attempts b = attempts a + 1)"
      by (rule step_counts)
  qed
  show "\<exists>r. loop (sa_step P schedule k) t = Some r" if "progress rank (sa_step P schedule k)"
  proof (rule progress_terminates [OF that])
    fix a b assume "sa_step P schedule k a = Continue b"
    then show "attempts a < k \<and> (attempts b = 0 \<or> attempts b = attempts a + 1)"
      by (rule sa_step_counts)
  qed
  show "\<exists>r. loop (ga_step P n mp k) s = Some r" if "progress rank (ga_step P n mp k)"
  proof (rule progress_terminates [OF that])
    fix a b assume "ga_step P n mp k a = Continue b"
    then show "attempts a < k \<and> (attempts b = 0 \<or> attempts b = attempts a + 1)"
      by (rule step_counts)
  qed
  show "\<exists>r. loop (mimic_step P n kp k) s = Some r" if "progress rank (mimic_step P n kp k)"
  proof (rule progress_terminates [OF that])
    fix a b assume "mimic_step P n kp k a = Continue b"
    then show "attempts a < k \<and> (attempts b = 0 \<or> attempts b = attempts a + 1)"
      by (rule step_counts)
  qed
qed

text \<open>
  C4, as the claim has it, fails: no counter bounds the number of accepted
  moves.  The inner loop of \<open>hill_climb\<close> has no counter at all, and the other
  loops reset \<open>attempts\<close> on every accepted move.  On the endless climb, where
  the neighbour is always strictly fitter, \<open>hill_climb\<close> and
  \<open>random_hill_climb\<close> (with the default \<open>max_attempts = 10\<close>, \<open>restarts = 1\<close>)
  never return.
\<close>

theorem drivers_terminate_counterexample:
  "hill_climb (walk_problem endless 1) 1 start = None \<and>
   random_hill_climb (walk_problem endless 1) 10 1 start = None"
  by (simp add: hill_climb_def random_hill_climb_def endless_hc_run endless_rhc_run)

text \<open>
  C4, amended.  A driver call returns (a result, or for \<open>genetic_alg\<close> perhaps
  an exception) for all finite \<open>max_attempts\<close> and \<open>restarts\<close> whenever the
  Problem allows only finitely many accepted moves in a row: there is a rank,
  a natural number for each world, that every accepted move lowers and that no
  rejecting pass raises.  \<open>simulated_annealing\<close> also returns whenever the
  schedule is zero at some time.
\<close>

theorem drivers_terminate:
  "(descends rank (hc_step P) \<longrightarrow> (\<exists>r. hill_climb P restarts w = Some r)) \<and>
   (progress rank (rhc_step P k) \<longrightarrow> (\<exists>r. random_hill_climb P k restarts w = Some r)) \<and>
   (progress rank (sa_step P schedule k) \<longrightarrow>
      (\<exists>r. simulated_annealing P schedule k w = Some r)) \<and>
   ((\<exists>t0. schedule t0 = 0) \<longrightarrow> (\<exists>r. simulated_annealing P schedule k w = Some r)) \<and>
   (progress rank (ga_step P n mp k) \<longrightarrow> (\<exists>r. genetic_alg P n mp k w = Some r)) \<and>
   (progress rank (mimic_step P n kp k) \<longrightarrow> (\<exists>r. mimic P n kp k w = Some r))"
proof -
  have hc: "\<exists>r. hill_climb P restarts w = Some r" if "descends rank (hc_step P)"
  proof -
    have "\<exists>v'. hc_run P v = Some v'" for v
      unfolding hc_run_def by (rule descends_terminates [OF that])
    from restarts_loop_terminates [of "hc_run P" P restarts w NegInf None, OF this]
    show ?thesis by (auto simp: hill_climb_def orient_def)
  qed
  have rhc: "\<exists>r. random_hill_climb P k restarts w = Some r" if "progress rank (rhc_step P k)"
  proof -
    have "\<exists>v'. rhc_run P k v = Some v'" for v
      unfolding rhc_run_def by (rule loops_terminate(1) [OF that])
    from restarts_loop_terminates [of "rhc_run P k" P restarts w NegInf None, OF this]
    show ?thesis by (auto simp: random_hill_climb_def orient_def)
  qed
  have sa: "\<exists>r. simulated_annealing P schedule k w = Some r"
    if "\<exists>r. loop (sa_step P schedule k) \<lparr>world = reset P w, attempts = 0, clock = 0\<rparr> = Some r"
    using that by (auto simp: simulated_annealing_def split: sum.splits)
  have sa1: "\<exists>r. simulated_annealing P schedule k w = Some r"
    if "progress rank (sa_step P schedule k)"
    by (rule sa) (rule loops_terminate(2) [OF that])
  have sa2: "\<exists>r. simulated_annealing P schedule k w = Some r" if "schedule t0 = 0" for t0
    by (rule sa) (rule schedule_terminates [of schedule t0, OF that], simp)
  have ga: "\<exists>r. genetic_alg P n mp k w = Some r" if "progress rank (ga_step P n mp k)"
    using loops_terminate(3) [OF that, of "\<lparr>world = random_pop P n (reset P w), attempts = 0\<rparr>"]
    by (auto simp: genetic_alg_def split: sum.splits)
  have mi: "\<exists>r. mimic P n kp k w = Some r" if "progress rank (mimic_step P n kp k)"
    using loops_terminate(4) [OF that, of "\<lparr>world = random_pop P n (reset P w), attempts = 0\<rparr>"]
    by (auto simp: mimic_def)
  from hc rhc sa1 sa2 ga mi show ?thesis by blast
qed

theorem drivers_terminate_witness:
  "descends (\<lambda>w. 3 - pos w) (hc_step (walk_problem capped 1)) \<and>
   hill_climb (walk_problem capped 1) 1 start = Some (Some 3, Fin 3, \<lparr>pos = 3, popn = []\<rparr>) \<and>
   progress (\<lambda>w. 3 - pos w) (rhc_step (walk_problem capped 1) 2) \<and>
   random_hill_climb (walk_problem capped 1) 2 1 start
     = Some (Some 3, Fin 3, \<lparr>pos = 3, popn = []\<rparr>) \<and>
   progress (\<lambda>w. 0) (sa_step (walk_problem steep 1) (\<lambda>t. 1) 2) \<and>
   simulated_annealing (walk_problem steep 1) (\<lambda>t. 1) 2 start
     = Some (Inr (Some 0, Fin 0, start)) \<and>
   two_ticks 2 = 0 \<and>
   simulated_annealing (walk_problem capped 1) two_ticks 5 start
     = Some (Inr (Some 2, Fin 2, \<lparr>pos = 2, popn = []\<rparr>)) \<and>
   progress (\<lambda>w. 3 - pos w) (ga_step (walk_problem capped 1) 1 0 1) \<and>
   genetic_alg (walk_problem capped 1) 1 0 1 start
     = Some (Inr (Some 3, Fin 3, \<lparr>pos = 3, popn = [4]\<rparr>)) \<and>
   progress (\<lambda>w. 3 - pos w) (mimic_step (walk_problem capped 1) 1 0 1) \<and>
   mimic (walk_problem capped 1) 1 0 1 start = Some (Some 3, Fin 3, \<lparr>pos = 3, popn = [4]\<rparr>)"
proof -
  have z: "two_ticks 2 = 0" by (simp add: two_ticks_def)
  from
    drivers_terminate [where rank = "\<lambda>w. 3 - pos w" and P = "walk_problem capped 1"
      and restarts = 1 and w = start and k = 2 and schedule = two_ticks and n = 1 and mp = 0
      and kp = 0]
    drivers_terminate [where rank = "\<lambda>w. 0" and P = "walk_problem steep 1"
      and restarts = 1 and w = start and k = 2 and schedule = "\<lambda>t. 1" and n = 1 and mp = 0
      and kp = 0]
    drivers_terminate [where rank = "\<lambda>w. 3 - pos w" and P = "walk_problem capped 1"
      and restarts = 1 and w = start and k = 5 and schedule = two_ticks and n = 1 and mp = 0
      and kp = 0]
    drivers_terminate [where rank = "\<lambda>w. 3 - pos w" and P = "walk_problem capped 1"
      and restarts = 1 and w = start and k = 1 and schedule = two_ticks and n = 1 and mp = 0
      and kp = 0]
    walk_hc_descends [of 1] walk_rhc_progress [of 1 2] steep_sa_progress [of 1 2] z
    walk_ga_progress [of 1 1 0 1] walk_mimic_progress [of 1 1 0 1]
    walk_hill_climb [of 1] walk_random_hill_climb [of 1] steep_simulated_annealing
    walk_simulated_annealing [of 1] walk_genetic_alg [of 1 0] walk_mimic_result [of 1 0]
  show ?thesis by simp
qed

end
